theory Spec2Isabelle
  imports Complex_Main "HOL-Library.AList"
begin

section \<open>JavaScript values\<close>

text \<open>
  The payloads, the messages posted to the parent window, the data of inbound message
  events and the responses are untyped JavaScript values (\<open>Payload\<close> is
  \<open>{ messageId?: string; [key: string]: any }\<close>). They are modelled by the values that the
  structured clone of \<open>postMessage\<close> can carry. Numbers are restricted to the integers
  (no \<open>NaN\<close>, no fractions); strings are lists of 8-bit code units. An object is the list
  of its own properties in insertion order.
\<close>

datatype jsval =
    JUndefined
  | JNull
  | JBool bool
  | JNum int
  | JStr string
  | JArr "jsval list"
  | JObj "(string \<times> jsval) list"

text \<open>\<open>ToBoolean\<close>: what \<open>!x\<close>, \<open>x || y\<close> and \<open>if (x)\<close> test.\<close>

fun truthy :: "jsval \<Rightarrow> bool" where
  "truthy JUndefined = False"
| "truthy JNull = False"
| "truthy (JBool b) = b"
| "truthy (JNum n) = (n \<noteq> 0)"
| "truthy (JStr s) = (s \<noteq> [])"
| "truthy (JArr xs) = True"
| "truthy (JObj kvs) = True"

fun typeof :: "jsval \<Rightarrow> string" where
  "typeof JUndefined = ''undefined''"
| "typeof JNull = ''object''"
| "typeof (JBool b) = ''boolean''"
| "typeof (JNum n) = ''number''"
| "typeof (JStr s) = ''string''"
| "typeof (JArr xs) = ''object''"
| "typeof (JObj kvs) = ''object''"

fun isArray :: "jsval \<Rightarrow> bool" where
  "isArray (JArr xs) = True"
| "isArray v = False"

text \<open>
  \<open>v.k\<close> for the property names the client reads (none of them is a property of a
  prototype): the own property of an object, \<open>undefined\<close> on every other value. The
  client guards each read of a payload with \<open>!payload\<close> or \<open>payload?.\<close>; the two
  unguarded reads, in \<open>sendMessage\<close>, are modelled there.
\<close>

fun property :: "jsval \<Rightarrow> string \<Rightarrow> jsval" where
  "property (JObj kvs) k = (case map_of kvs k of Some v \<Rightarrow> v | None \<Rightarrow> JUndefined)"
| "property v k = JUndefined"

datatype js_error = TypeError string

text \<open>\<open>k in v\<close> throws a TypeError when \<open>v\<close> is not an object.\<close>

fun js_in :: "string \<Rightarrow> jsval \<Rightarrow> js_error + bool" where
  "js_in k (JObj kvs) = Inr (k \<in> set (map fst kvs))"
| "js_in k (JArr xs) = Inr False"
| "js_in k v = Inl (TypeError ''Cannot use in operator'')"

fun digits :: "nat \<Rightarrow> string" where
  "digits n = (if n < 10 then [char_of (48 + n)] else digits (n div 10) @ [char_of (48 + n mod 10)])"

declare digits.simps [simp del]

text \<open>
  The own enumerable properties that an object spread \<open>{...v}\<close> copies: the properties of
  an object, the indices of an array or of a string, nothing for the other values.
\<close>

fun spread :: "jsval \<Rightarrow> (string \<times> jsval) list" where
  "spread (JObj kvs) = kvs"
| "spread (JArr xs) = zip (map digits [0..<length xs]) xs"
| "spread (JStr s) = zip (map digits [0..<length s]) (map (\<lambda>c. JStr [c]) s)"
| "spread v = []"

text \<open>Writing the properties \<open>kvs\<close>, in order, into an object literal under construction.\<close>

definition assign :: "(string \<times> jsval) list \<Rightarrow> (string \<times> jsval) list \<Rightarrow> (string \<times> jsval) list" where
  "assign obj kvs = foldl (\<lambda>acc (k, v). AList.update k v acc) obj kvs"

section \<open>Strings\<close>

text \<open>The code units below 256 that \<open>\s\<close> and \<open>trim\<close> treat as white space.\<close>

definition is_space :: "char \<Rightarrow> bool" where
  "is_space c = (c \<in> {CHR 0x09, CHR 0x0A, CHR 0x0B, CHR 0x0C, CHR 0x0D, CHR 0x20, CHR 0xA0})"

definition trim :: "string \<Rightarrow> string" where
  "trim s = rev (dropWhile is_space (rev (dropWhile is_space s)))"

definition startsWith :: "string \<Rightarrow> string \<Rightarrow> bool" where
  "startsWith s p = (take (length p) s = p)"

text \<open>\<open>s.split(d)\<close> for a one-character separator: never empty, \<open>''''.split(d) = ['''']\<close>.\<close>

fun split :: "char \<Rightarrow> string \<Rightarrow> string list" where
  "split d [] = [[]]"
| "split d (c # cs) =
     (if c = d then [] # split d cs
      else (case split d cs of w # ws \<Rightarrow> (c # w) # ws | [] \<Rightarrow> [[c]]))"

text \<open>\<open>xs[i]\<close> on an array: \<open>undefined\<close> (here \<open>None\<close>) out of range.\<close>

definition at_index :: "'a list \<Rightarrow> nat \<Rightarrow> 'a option" where
  "at_index xs i = (if i < length xs then Some (xs ! i) else None)"

section \<open>The size of a Base64 image\<close>

text \<open>
  \<^verbatim>\<open>
  let base64 = base64String.split(',')[1] || base64String;
  base64 = base64.replace(/\s/g, '');
  const padding = (base64.match(/=*$/) || [''])[0].length;
  const bytes = base64.length * 3 / 4 - padding;
  return { bytes: Math.floor(bytes), kb: kb.toFixed(2), mb: mb.toFixed(2) };
  \<close>
  \<open>/=*$/\<close> matches the longest run of \<open>=\<close> that ends the string. The function below
  returns the field \<open>bytes\<close>, the only one a caller reads (\<open>kb\<close> and \<open>mb\<close> print the same
  quantity with two decimals).
\<close>

definition base64_body :: "string \<Rightarrow> string" where
  "base64_body base64String =
     (case at_index (split CHR '','' base64String) 1 of
        None \<Rightarrow> base64String
      | Some seg \<Rightarrow> if seg \<noteq> [] then seg else base64String)"

definition padding_of :: "string \<Rightarrow> nat" where
  "padding_of base64 = length (takeWhile (\<lambda>c. c = CHR ''='') (rev base64))"

definition getBase64ImageSize :: "string \<Rightarrow> int" where
  "getBase64ImageSize base64String =
     (let base64 = base64_body base64String;
          base64 = filter (\<lambda>c. \<not> is_space c) base64;
          padding = padding_of base64;
          bytes = real (length base64) * 3 / 4 - real padding
      in \<lfloor>bytes\<rfloor>)"

section \<open>Error responses\<close>

datatype ErrorCode =
    InvalidPayload
  | MissingCertificate
  | InvalidCertificate
  | methodNotFound
  | ExceededUploadSizeLimit
  | TimeoutError

fun ErrorCode_value :: "ErrorCode \<Rightarrow> int" where
  "ErrorCode_value InvalidPayload = 30001"
| "ErrorCode_value MissingCertificate = 30002"
| "ErrorCode_value InvalidCertificate = 30003"
| "ErrorCode_value methodNotFound = 30004"
| "ErrorCode_value ExceededUploadSizeLimit = 30010"
| "ErrorCode_value TimeoutError = 30011"

record error_options =
  opt_code :: "ErrorCode option"
  opt_message :: "string option"
  opt_data :: "jsval option"

fun defaultMessages :: "ErrorCode \<Rightarrow> string option" where
  "defaultMessages InvalidPayload = Some ''Invalid request payload''"
| "defaultMessages MissingCertificate = Some ''Certificate information is missing''"
| "defaultMessages InvalidCertificate = Some ''Invalid certificate format''"
| "defaultMessages ExceededUploadSizeLimit = Some ''File size exceeds the limit''"
| "defaultMessages TimeoutError = Some ''Request timed out''"
| "defaultMessages methodNotFound = None"

text \<open>
  \<^verbatim>\<open>
  const { code = ErrorCode.InvalidPayload, message, data } = options;
  const errorMessage = message || defaultMessages[code] || 'An error occurred';
  const errorResponse: ErrorResponse = { code, messageId };
  if (data) errorResponse.data = data;
  return errorResponse;
  \<close>
  \<open>errorMessage\<close> is computed and never stored in the response.
\<close>

definition handleError :: "string \<Rightarrow> jsval \<Rightarrow> error_options \<Rightarrow> jsval" where
  "handleError cmd messageId options =
     (let code = (case opt_code options of None \<Rightarrow> InvalidPayload | Some c \<Rightarrow> c);
          errorMessage =
            (case opt_message options of
               Some m \<Rightarrow> if m \<noteq> [] then m
                         else (case defaultMessages code of Some d \<Rightarrow> d | None \<Rightarrow> ''An error occurred'')
             | None \<Rightarrow> (case defaultMessages code of Some d \<Rightarrow> d | None \<Rightarrow> ''An error occurred''));
          errorResponse = [(''code'', JNum (ErrorCode_value code)), (''messageId'', messageId)]
      in case opt_data options of
           None \<Rightarrow> JObj errorResponse
         | Some d \<Rightarrow> if truthy d then JObj (AList.update ''data'' d errorResponse)
                     else JObj errorResponse)"

definition err :: "ErrorCode \<Rightarrow> string \<Rightarrow> error_options" where
  "err c m = \<lparr>opt_code = Some c, opt_message = Some m, opt_data = None\<rparr>"

section \<open>The client, its window and its promises\<close>

text \<open>
  One state holds what the code mutates: the static fields of the class
  (\<open>instanceCount\<close>, \<open>listenerFn\<close>), the instances, and the part of \<open>window\<close> that the
  client uses (the listeners of the \<open>message\<close> event, the armed timers, the parent and the
  messages posted to it). A promise is named by a number; \<open>settled\<close> logs every call of a
  promise's \<open>resolve\<close> function, in order (\<open>reject\<close> is stored with it and never called).
  The bound function \<open>this.messageHandler.bind(this)\<close> is named by its \<open>this\<close>.
\<close>

record callback =
  resolve :: nat
  timeoutId :: "nat option"

record client =
  defaultTimeout :: int
  messageCallbacks :: "(string \<times> callback) list"

record timer =
  timer_this :: nat
  timer_messageId :: string
  timer_cmd :: string
  timer_delay :: int

record state =
  instanceCount :: int
  listenerFn :: "nat option"
  instances :: "client list"
  listeners :: "nat list"
  timers :: "(nat \<times> timer) list"
  timerCount :: nat
  parent :: bool
  posted :: "jsval list"
  minted :: nat
  promises :: nat
  settled :: "(nat \<times> jsval) list"

record RelayXClientConfig =
  timeout :: "int option"

definition initial :: "bool \<Rightarrow> state" where
  "initial parentReachable =
     \<lparr>instanceCount = 0, listenerFn = None, instances = [], listeners = [], timers = [],
      timerCount = 0, parent = parentReachable, posted = [], minted = 0, promises = 0,
      settled = []\<rparr>"

subsection \<open>The window and the promises\<close>

text \<open>\<open>window.setTimeout\<close> returns a positive handle that it has not returned before.\<close>

definition setTimeout :: "timer \<Rightarrow> state \<Rightarrow> nat \<times> state" where
  "setTimeout tm s =
     (let handle = Suc (timerCount s)
      in (handle, s\<lparr>timers := timers s @ [(handle, tm)], timerCount := handle\<rparr>))"

definition clearTimeout :: "nat \<Rightarrow> state \<Rightarrow> state" where
  "clearTimeout handle s = s\<lparr>timers := AList.delete handle (timers s)\<rparr>"

definition postMessage :: "jsval \<Rightarrow> state \<Rightarrow> state" where
  "postMessage message s = s\<lparr>posted := posted s @ [message]\<rparr>"

definition new_promise :: "state \<Rightarrow> nat \<times> state" where
  "new_promise s = (promises s, s\<lparr>promises := Suc (promises s)\<rparr>)"

definition call_resolve :: "nat \<Rightarrow> jsval \<Rightarrow> state \<Rightarrow> state" where
  "call_resolve promise v s = s\<lparr>settled := settled s @ [(promise, v)]\<rparr>"

text \<open>\<open>Promise.resolve(v)\<close>: a new promise, settled at once.\<close>

definition Promise_resolve :: "jsval \<Rightarrow> state \<Rightarrow> nat \<times> state" where
  "Promise_resolve v s = (let (promise, s) = new_promise s in (promise, call_resolve promise v s))"

definition callbacks_of :: "state \<Rightarrow> nat \<Rightarrow> (string \<times> callback) list" where
  "callbacks_of s this = messageCallbacks (instances s ! this)"

definition set_callbacks :: "nat \<Rightarrow> (string \<times> callback) list \<Rightarrow> state \<Rightarrow> state" where
  "set_callbacks this cbs s =
     s\<lparr>instances := (instances s)[this := (instances s ! this)\<lparr>messageCallbacks := cbs\<rparr>]\<rparr>"

subsection \<open>Construction\<close>

text \<open>
  \<^verbatim>\<open>
  this.defaultTimeout = config.timeout || 30000;
  ...
  RelayXClient.instanceCount++;
  if (!RelayXClient.listenerFn) {
    RelayXClient.listenerFn = this.messageHandler.bind(this);
    window.addEventListener("message", RelayXClient.listenerFn);
  }
  \<close>
  The new instance is the last of \<open>instances\<close>.
\<close>

definition constructor :: "RelayXClientConfig \<Rightarrow> state \<Rightarrow> state" where
  "constructor config s =
     (let this = length (instances s);
          s = s\<lparr>instances := instances s @
                 [\<lparr>defaultTimeout = (case timeout config of
                                        Some t \<Rightarrow> if t \<noteq> 0 then t else 30000
                                      | None \<Rightarrow> 30000),
                   messageCallbacks = []\<rparr>]\<rparr>;
          s = s\<lparr>instanceCount := instanceCount s + 1\<rparr>
      in case listenerFn s of
           None \<Rightarrow> s\<lparr>listenerFn := Some this, listeners := listeners s @ [this]\<rparr>
         | Some f \<Rightarrow> s)"

subsection \<open>Correlation tokens\<close>

text \<open>
  \<open>generateUniqueMessageId\<close> returns \<open>crypto.randomUUID()\<close> (or a random string of the
  same shape). The model takes the sequence of the values it returns as a parameter: the
  \<open>n\<close>-th call returns \<open>g n\<close>.
\<close>

type_synonym generator = "nat \<Rightarrow> string"

definition generateUniqueMessageId :: "generator \<Rightarrow> state \<Rightarrow> string \<times> state" where
  "generateUniqueMessageId g s = (g (minted s), s\<lparr>minted := Suc (minted s)\<rparr>)"

subsection \<open>The registry of pending calls\<close>

text \<open>
  \<^verbatim>\<open>
  if (!messageId || !this.messageCallbacks[messageId]) return;
  const callback = this.messageCallbacks[messageId];
  if (callback.timeoutId) { window.clearTimeout(callback.timeoutId); }
  delete this.messageCallbacks[messageId];
  \<close>
\<close>

definition clear_if_set :: "nat option \<Rightarrow> state \<Rightarrow> state" where
  "clear_if_set tid s = (case tid of Some t \<Rightarrow> if t \<noteq> 0 then clearTimeout t s else s | None \<Rightarrow> s)"

definition cleanupCallback :: "nat \<Rightarrow> string \<Rightarrow> state \<Rightarrow> state" where
  "cleanupCallback this messageId s =
     (if messageId = [] then s
      else case map_of (callbacks_of s this) messageId of
             None \<Rightarrow> s
           | Some callback \<Rightarrow>
               (let s = clear_if_set (timeoutId callback) s
                in set_callbacks this (AList.delete messageId (callbacks_of s this)) s))"

definition handleTimeout :: "nat \<Rightarrow> string \<Rightarrow> string \<Rightarrow> state \<Rightarrow> state" where
  "handleTimeout this messageId cmd s =
     (case map_of (callbacks_of s this) messageId of
        None \<Rightarrow> s
      | Some callback \<Rightarrow>
          (let s = call_resolve (resolve callback)
                     (handleError cmd (JStr messageId) (err TimeoutError ''Request timed out'')) s
           in cleanupCallback this messageId s))"

subsection \<open>Sending\<close>

text \<open>
  \<^verbatim>\<open>
  private _sendMessage(cmd, payload, timeoutMs = this.defaultTimeout) {
    return new Promise((resolve, reject) => {
      const messageId = this.generateUniqueMessageId();
      const message = { cmd: cmd, messageId: messageId, ...payload };
      const cleanupAndResolve = (error) => { this.cleanupCallback(messageId); resolve(error); };
      if (window.parent) {
        window.parent.postMessage(message, '*');
        this.messageCallbacks[messageId] = { resolve, reject };
        if (cmd !== "openURL" && cmd !== "scanQRCode") {
          const timeoutId = window.setTimeout(() => { this.handleTimeout(messageId, cmd); }, timeoutMs);
          this.messageCallbacks[messageId].timeoutId = timeoutId;
        }
      } else {
        cleanupAndResolve(this.handleError(cmd, messageId, {
          message: 'Unable to send message to parent window. Parent window not found.' }));
      }
    });
  }
  \<close>
  \<open>timeoutMs_arg\<close> is \<open>None\<close> when the caller leaves the third argument out, as every
  caller in the class does.
\<close>

definition private_sendMessage ::
  "generator \<Rightarrow> nat \<Rightarrow> string \<Rightarrow> jsval \<Rightarrow> int option \<Rightarrow> state \<Rightarrow> nat \<times> state" where
  "private_sendMessage g this cmd payload timeoutMs_arg s =
     (let timeoutMs = (case timeoutMs_arg of None \<Rightarrow> defaultTimeout (instances s ! this) | Some t \<Rightarrow> t);
          (promise, s) = new_promise s;
          (messageId, s) = generateUniqueMessageId g s;
          message = JObj (assign [(''cmd'', JStr cmd), (''messageId'', JStr messageId)] (spread payload))
      in if parent s then
           (let s = postMessage message s;
                s = set_callbacks this
                      (AList.update messageId \<lparr>resolve = promise, timeoutId = None\<rparr> (callbacks_of s this)) s
            in if cmd \<noteq> ''openURL'' \<and> cmd \<noteq> ''scanQRCode'' then
                 (let (handle, s) = setTimeout \<lparr>timer_this = this, timer_messageId = messageId,
                                               timer_cmd = cmd, timer_delay = timeoutMs\<rparr> s;
                      s = set_callbacks this
                            (AList.map_entry messageId (\<lambda>callback. callback\<lparr>timeoutId := Some handle\<rparr>)
                               (callbacks_of s this)) s
                  in (promise, s))
               else (promise, s))
         else
           (let error = handleError cmd (JStr messageId)
                          \<lparr>opt_code = None,
                           opt_message = Some ''Unable to send message to parent window. Parent window not found.'',
                           opt_data = None\<rparr>;
                s = cleanupCallback this messageId s
            in (promise, call_resolve promise error s)))"


subsection \<open>The validators of the commands\<close>

text \<open>\<open>payload?.messageId || this.generateUniqueMessageId()\<close>\<close>

definition messageId_or_fresh :: "generator \<Rightarrow> jsval \<Rightarrow> state \<Rightarrow> jsval \<times> state" where
  "messageId_or_fresh g payload s =
     (if truthy (property payload ''messageId'') then (property payload ''messageId'', s)
      else (let (messageId, s) = generateUniqueMessageId g s in (JStr messageId, s)))"

text \<open>The characters of a value whose \<open>typeof\<close> is \<open>string\<close>.\<close>

fun str :: "jsval \<Rightarrow> string" where
  "str (JStr t) = t"
| "str v = []"

record sig_check =
  isValid :: bool
  errorCode :: "ErrorCode option"
  errorMessage :: "string option"

definition validateSigInfo :: "jsval \<Rightarrow> sig_check" where
  "validateSigInfo sigInfo =
     (if \<not> truthy sigInfo then
        \<lparr>isValid = False, errorCode = Some MissingCertificate,
         errorMessage = Some ''Missing certificate information''\<rparr>
      else if typeof (property sigInfo ''content'') \<noteq> ''string''
              \<or> typeof (property sigInfo ''signature'') \<noteq> ''string''
              \<or> trim (str (property sigInfo ''content'')) = []
              \<or> trim (str (property sigInfo ''signature'')) = [] then
        \<lparr>isValid = False, errorCode = Some InvalidCertificate,
         errorMessage = Some ''Invalid certificate format''\<rparr>
      else \<lparr>isValid = True, errorCode = None, errorMessage = None\<rparr>)"

text \<open>
  \<open>handleError(cmd, messageId, { code: sigCheck.errorCode!, message: sigCheck.errorMessage || 'Invalid signature info' })\<close>
\<close>

definition sig_error :: "sig_check \<Rightarrow> error_options" where
  "sig_error sigCheck =
     \<lparr>opt_code = errorCode sigCheck,
      opt_message = Some (case errorMessage sigCheck of
                            Some m \<Rightarrow> if m \<noteq> [] then m else ''Invalid signature info''
                          | None \<Rightarrow> ''Invalid signature info''),
      opt_data = None\<rparr>"

definition connectCocoPay :: "generator \<Rightarrow> nat \<Rightarrow> jsval \<Rightarrow> state \<Rightarrow> nat \<times> state" where
  "connectCocoPay g this payload s =
     (let (messageId, s) = messageId_or_fresh g payload s
      in if \<not> truthy payload
            \<or> \<not> isArray (property payload ''chainList'')
            \<or> (property payload ''walletSupports'' \<noteq> JUndefined
                \<and> \<not> isArray (property payload ''walletSupports''))
         then Promise_resolve (handleError ''connectCocoPay'' messageId
                (err InvalidPayload ''Invalid payload for connectCocoPay'')) s
         else private_sendMessage g this ''connectCocoPay'' (JObj [(''data'', payload)]) None s)"

definition getSafeAreaInsets :: "generator \<Rightarrow> nat \<Rightarrow> state \<Rightarrow> nat \<times> state" where
  "getSafeAreaInsets g this s =
     private_sendMessage g this ''getSafeAreaInsets'' (JObj [(''data'', JObj [])]) None s"

definition getLanguage :: "generator \<Rightarrow> nat \<Rightarrow> state \<Rightarrow> nat \<times> state" where
  "getLanguage g this s =
     private_sendMessage g this ''getLanguage'' (JObj [(''data'', JObj [])]) None s"

definition openURL :: "generator \<Rightarrow> nat \<Rightarrow> jsval \<Rightarrow> state \<Rightarrow> nat \<times> state" where
  "openURL g this payload s =
     (let (messageId, s) = messageId_or_fresh g payload s
      in if \<not> truthy payload
            \<or> typeof (property payload ''url'') \<noteq> ''string''
            \<or> \<not> startsWith (str (property payload ''url'')) ''https://''
            \<or> length (str (property payload ''url'')) > 200
            \<or> trim (str (property payload ''url'')) = []
            \<or> (property payload ''useSystemOpen'' \<noteq> JUndefined
                \<and> typeof (property payload ''useSystemOpen'') \<noteq> ''boolean'')
         then Promise_resolve (handleError ''openURL'' messageId
                (err InvalidPayload ''Invalid URL provided'')) s
         else private_sendMessage g this ''openURL'' (JObj [(''data'', payload)]) None s)"

definition scanQRCode :: "generator \<Rightarrow> nat \<Rightarrow> state \<Rightarrow> nat \<times> state" where
  "scanQRCode g this s =
     private_sendMessage g this ''scanQRCode'' (JObj [(''data'', JObj [])]) None s"

definition copyToClipboard :: "generator \<Rightarrow> nat \<Rightarrow> jsval \<Rightarrow> state \<Rightarrow> nat \<times> state" where
  "copyToClipboard g this payload s =
     (let (messageId, s) = messageId_or_fresh g payload s
      in if \<not> truthy payload
            \<or> typeof (property payload ''text'') \<noteq> ''string''
            \<or> trim (str (property payload ''text'')) = []
         then Promise_resolve (handleError ''copyToClipboard'' messageId
                (err InvalidPayload ''Invalid text for clipboard'')) s
         else private_sendMessage g this ''copyToClipboard'' (JObj [(''data'', payload)]) None s)"

text \<open>
  \<^verbatim>\<open>
  if (!payload || typeof payload.image !== 'string' || !payload.image.trim() ||
      !payload.image.startsWith('data:image/')) {
    return Promise.resolve(this.handleError('saveImage', messageId, {
      code: ErrorCode.InvalidPayload, message: 'Invalid image data' }));
  }
  try {
    const imageSize = this.getBase64ImageSize(payload.image);
    const maxSizeInBytes = 1 * 1024 * 1024; // 1MB
    if (imageSize.bytes > maxSizeInBytes) {
      return Promise.resolve(this.handleError('saveImage', messageId, {
        code: ErrorCode.ExceededUploadSizeLimit, message: 'Image size exceeds limit' }));
    }
  } catch (e) { ... ErrorCode.InvalidPayload, 'Failed to process image data' ... }
  return this._sendMessage('saveImage', { data: payload });
  \<close>
  \<open>getBase64ImageSize\<close> does not throw on a string, so the \<open>catch\<close> branch has no counterpart
  in the model.
\<close>

definition saveImage :: "generator \<Rightarrow> nat \<Rightarrow> jsval \<Rightarrow> state \<Rightarrow> nat \<times> state" where
  "saveImage g this payload s =
     (let (messageId, s) = messageId_or_fresh g payload s
      in if \<not> truthy payload
            \<or> typeof (property payload ''image'') \<noteq> ''string''
            \<or> trim (str (property payload ''image'')) = []
            \<or> \<not> startsWith (str (property payload ''image'')) ''data:image/''
         then Promise_resolve (handleError ''saveImage'' messageId
                (err InvalidPayload ''Invalid image data'')) s
         else (let imageSize = getBase64ImageSize (str (property payload ''image''));
                   maxSizeInBytes = 1 * 1024 * 1024
               in if imageSize > maxSizeInBytes
                  then Promise_resolve (handleError ''saveImage'' messageId
                         (err ExceededUploadSizeLimit ''Image size exceeds limit'')) s
                  else private_sendMessage g this ''saveImage'' (JObj [(''data'', payload)]) None s))"

text \<open>
  \<open>getAccount\<close> and \<open>setExtendedData\<close> use \<open>in\<close>, which throws on a payload that is
  truthy and no object; the exception leaves the handler.
\<close>

definition getAccount ::
  "generator \<Rightarrow> nat \<Rightarrow> jsval \<Rightarrow> state \<Rightarrow> (js_error + nat) \<times> state" where
  "getAccount g this payload s =
     (let (messageId, s) = messageId_or_fresh g payload s
      in if \<not> truthy payload then
           (let (promise, s) = private_sendMessage g this ''getAccount'' (JObj [(''data'', JObj [])]) None s
            in (Inr promise, s))
         else case js_in ''type'' payload of
                Inl e \<Rightarrow> (Inl e, s)
              | Inr has_type \<Rightarrow>
                  if has_type \<and> (typeof (property payload ''type'') \<noteq> ''string''
                                  \<or> property payload ''type'' \<noteq> JStr ''1'')
                  then (let (promise, s) = Promise_resolve (handleError ''getAccount'' messageId
                                             (err InvalidPayload ''Invalid account type'')) s
                        in (Inr promise, s))
                  else (let (promise, s) = private_sendMessage g this ''getAccount''
                                             (JObj [(''data'', payload)]) None s
                        in (Inr promise, s)))"

definition setExtendedData ::
  "generator \<Rightarrow> nat \<Rightarrow> jsval \<Rightarrow> state \<Rightarrow> (js_error + nat) \<times> state" where
  "setExtendedData g this payload s =
     (let (messageId, s) = messageId_or_fresh g payload s;
          invalid = (\<lambda>s. let (promise, s) = Promise_resolve (handleError ''setExtendedData'' messageId
                                              (err InvalidPayload ''Invalid extended data format'')) s
                         in (Inr promise, s))
      in if \<not> truthy payload then invalid s
         else case js_in ''extend'' payload of
                Inl e \<Rightarrow> (Inl e, s)
              | Inr has_extend \<Rightarrow>
                  if \<not> has_extend
                     \<or> property payload ''extend'' = JNull
                     \<or> isArray (property payload ''extend'')
                     \<or> (typeof (property payload ''extend'') \<noteq> ''object''
                         \<and> typeof (property payload ''extend'') \<noteq> ''string'')
                  then invalid s
                  else (let (promise, s) = private_sendMessage g this ''setExtendedData''
                                             (JObj [(''data'', payload)]) None s
                        in (Inr promise, s)))"

definition getExtendedData :: "generator \<Rightarrow> nat \<Rightarrow> state \<Rightarrow> nat \<times> state" where
  "getExtendedData g this s =
     private_sendMessage g this ''getExtendedData'' (JObj [(''data'', JObj [])]) None s"

definition generateSignature :: "generator \<Rightarrow> nat \<Rightarrow> jsval \<Rightarrow> state \<Rightarrow> nat \<times> state" where
  "generateSignature g this payload s =
     (let (messageId, s) = messageId_or_fresh g payload s
      in if \<not> truthy payload
            \<or> typeof (property payload ''message'') \<noteq> ''string''
            \<or> trim (str (property payload ''message'')) = []
         then Promise_resolve (handleError ''generateSignature'' messageId
                (err InvalidPayload ''Invalid message for signature'')) s
         else private_sendMessage g this ''generateSignature'' (JObj [(''data'', payload)]) None s)"

definition verifySignature :: "generator \<Rightarrow> nat \<Rightarrow> jsval \<Rightarrow> state \<Rightarrow> nat \<times> state" where
  "verifySignature g this payload s =
     (let (messageId, s) = messageId_or_fresh g payload s
      in if \<not> truthy payload
            \<or> typeof (property payload ''message'') \<noteq> ''string''
            \<or> typeof (property payload ''signature'') \<noteq> ''string''
            \<or> trim (str (property payload ''message'')) = []
            \<or> trim (str (property payload ''signature'')) = []
         then Promise_resolve (handleError ''verifySignature'' messageId
                (err InvalidPayload ''Invalid signature data'')) s
         else private_sendMessage g this ''verifySignature'' (JObj [(''data'', payload)]) None s)"

definition encrypt :: "generator \<Rightarrow> nat \<Rightarrow> jsval \<Rightarrow> state \<Rightarrow> nat \<times> state" where
  "encrypt g this payload s =
     (let (messageId, s) = messageId_or_fresh g payload s
      in if \<not> truthy payload
            \<or> typeof (property payload ''message'') \<noteq> ''string''
            \<or> trim (str (property payload ''message'')) = []
         then Promise_resolve (handleError ''encrypt'' messageId
                (err InvalidPayload ''Invalid message for encryption'')) s
         else private_sendMessage g this ''encrypt'' (JObj [(''data'', payload)]) None s)"

definition decrypt :: "generator \<Rightarrow> nat \<Rightarrow> jsval \<Rightarrow> state \<Rightarrow> nat \<times> state" where
  "decrypt g this payload s =
     (let (messageId, s) = messageId_or_fresh g payload s
      in if \<not> truthy payload
            \<or> typeof (property payload ''content'') \<noteq> ''string''
            \<or> trim (str (property payload ''content'')) = []
         then Promise_resolve (handleError ''decrypt'' messageId
                (err InvalidPayload ''Invalid content for decryption'')) s
         else private_sendMessage g this ''decrypt'' (JObj [(''data'', payload)]) None s)"

definition registerService ::
  "generator \<Rightarrow> nat \<Rightarrow> jsval \<Rightarrow> jsval \<Rightarrow> state \<Rightarrow> nat \<times> state" where
  "registerService g this payload sigInfo s =
     (let (messageId, s) = messageId_or_fresh g payload s
      in if \<not> truthy payload
            \<or> typeof (property payload ''serviceKey'') \<noteq> ''string''
            \<or> trim (str (property payload ''serviceKey'')) = []
         then Promise_resolve (handleError ''registerService'' messageId
                (err InvalidPayload ''Invalid service key'')) s
         else (let sigCheck = validateSigInfo sigInfo
               in if \<not> isValid sigCheck
                  then Promise_resolve (handleError ''registerService'' messageId (sig_error sigCheck)) s
                  else private_sendMessage g this ''registerService''
                         (JObj [(''data'', payload), (''sign'', sigInfo)]) None s))"

definition checkServiceStatus :: "generator \<Rightarrow> nat \<Rightarrow> jsval \<Rightarrow> state \<Rightarrow> nat \<times> state" where
  "checkServiceStatus g this sigInfo s =
     (let (messageId, s) = messageId_or_fresh g sigInfo s;
          sigCheck = validateSigInfo sigInfo
      in if \<not> isValid sigCheck
         then Promise_resolve (handleError ''checkServiceStatus'' messageId (sig_error sigCheck)) s
         else private_sendMessage g this ''checkServiceStatus''
                (JObj [(''data'', JObj []), (''sign'', sigInfo)]) None s)"

definition sendServiceMessage ::
  "generator \<Rightarrow> nat \<Rightarrow> jsval \<Rightarrow> jsval \<Rightarrow> state \<Rightarrow> nat \<times> state" where
  "sendServiceMessage g this payload sigInfo s =
     (let (messageId, s) = messageId_or_fresh g payload s
      in if \<not> truthy payload
            \<or> typeof (property payload ''content'') \<noteq> ''object''
            \<or> isArray (property payload ''content'')
            \<or> typeof (property payload ''type'') \<noteq> ''string''
            \<or> trim (str (property payload ''type'')) = []
            \<or> property payload ''type'' \<noteq> JStr ''HTTP''
         then Promise_resolve (handleError ''sendServiceMessage'' messageId
                (err InvalidPayload ''Invalid service message format'')) s
         else (let sigCheck = validateSigInfo sigInfo
               in if \<not> isValid sigCheck
                  then Promise_resolve (handleError ''sendServiceMessage'' messageId (sig_error sigCheck)) s
                  else private_sendMessage g this ''sendServiceMessage''
                         (JObj [(''data'', payload), (''sign'', sigInfo)]) None s))"

subsection \<open>Dispatch\<close>

datatype CommandParamType = CallbackOnly | Payload | SignOnly | PayloadAndSign

text \<open>
  A handler of the command table, called with the arguments that \<open>sendMessage\<close> passes
  (a handler ignores the arguments it does not declare).
\<close>

type_synonym handler =
  "generator \<Rightarrow> nat \<Rightarrow> jsval \<Rightarrow> jsval \<Rightarrow> state \<Rightarrow> (js_error + nat) \<times> state"

definition returned :: "nat \<times> state \<Rightarrow> (js_error + nat) \<times> state" where
  "returned r = (Inr (fst r), snd r)"

definition commandMap :: "(string \<times> CommandParamType \<times> handler) list" where
  "commandMap =
     [(''connectCocoPay'', Payload, \<lambda>g this a b s. returned (connectCocoPay g this a s)),
      (''getSafeAreaInsets'', CallbackOnly, \<lambda>g this a b s. returned (getSafeAreaInsets g this s)),
      (''getLanguage'', CallbackOnly, \<lambda>g this a b s. returned (getLanguage g this s)),
      (''openURL'', Payload, \<lambda>g this a b s. returned (openURL g this a s)),
      (''scanQRCode'', CallbackOnly, \<lambda>g this a b s. returned (scanQRCode g this s)),
      (''copyToClipboard'', Payload, \<lambda>g this a b s. returned (copyToClipboard g this a s)),
      (''saveImage'', Payload, \<lambda>g this a b s. returned (saveImage g this a s)),
      (''getAccount'', Payload, \<lambda>g this a b s. getAccount g this a s),
      (''setExtendedData'', Payload, \<lambda>g this a b s. setExtendedData g this a s),
      (''getExtendedData'', CallbackOnly, \<lambda>g this a b s. returned (getExtendedData g this s)),
      (''generateSignature'', Payload, \<lambda>g this a b s. returned (generateSignature g this a s)),
      (''verifySignature'', Payload, \<lambda>g this a b s. returned (verifySignature g this a s)),
      (''encrypt'', Payload, \<lambda>g this a b s. returned (encrypt g this a s)),
      (''decrypt'', Payload, \<lambda>g this a b s. returned (decrypt g this a s)),
      (''registerService'', PayloadAndSign, \<lambda>g this a b s. returned (registerService g this a b s)),
      (''checkServiceStatus'', SignOnly, \<lambda>g this a b s. returned (checkServiceStatus g this a s)),
      (''sendServiceMessage'', PayloadAndSign, \<lambda>g this a b s. returned (sendServiceMessage g this a b s))]"

text \<open>
  \<open>commandMap\<close> is an object literal, so \<open>this.commandMap[cmd]\<close> also finds the properties
  of \<open>Object.prototype\<close>: functions (an object for \<open>__proto__\<close>), truthy and with no
  \<open>type\<close>.
\<close>

definition Object_prototype :: "string list" where
  "Object_prototype =
     [''constructor'', ''__defineGetter__'', ''__defineSetter__'', ''hasOwnProperty'',
      ''__lookupGetter__'', ''__lookupSetter__'', ''isPrototypeOf'', ''propertyIsEnumerable'',
      ''toString'', ''valueOf'', ''__proto__'', ''toLocaleString'']"

text \<open>
  \<^verbatim>\<open>
  sendMessage(cmd: string, payload: Payload = {}): Promise<Response> {
    const commandHandler = this.commandMap[cmd];
    if (!commandHandler) { return this._sendMessage(cmd, payload); }
    const validTypes = ["callbackOnly", "payload", "signOnly", "payloadAndSign"];
    const messageId = payload?.messageId || this.generateUniqueMessageId();
    if (!validTypes.includes(commandHandler.type)) { return this._sendMessage(cmd, payload); }
    try {
      switch (commandHandler.type) {
        case "callbackOnly": return commandHandler.handler();
        case "payload": return commandHandler.handler(payload);
        case "payloadAndSign": return commandHandler.handler(payload.data, payload.sign);
        case "signOnly": return commandHandler.handler(payload.sign);
        default: return this._sendMessage(cmd, payload);
      }
    } catch (error) {
      return Promise.resolve(this.handleError(cmd, messageId, {
        message: error instanceof Error ? error.message : 'Unknown error occurred',
        code: ErrorCode.methodNotFound }));
    }
  }
  \<close>
  \<open>payload.data\<close> and \<open>payload.sign\<close> throw a TypeError when the payload is \<open>null\<close>
  (\<open>undefined\<close> has become \<open>{}\<close>).
\<close>

definition sendMessage :: "generator \<Rightarrow> nat \<Rightarrow> string \<Rightarrow> jsval \<Rightarrow> state \<Rightarrow> nat \<times> state" where
  "sendMessage g this cmd payload_arg s =
     (let payload = (if payload_arg = JUndefined then JObj [] else payload_arg)
      in case map_of commandMap cmd of
           None \<Rightarrow>
             if cmd \<notin> set Object_prototype then private_sendMessage g this cmd payload None s
             else (let (messageId, s) = messageId_or_fresh g payload s
                   in private_sendMessage g this cmd payload None s)
         | Some (type, handler) \<Rightarrow>
             (let (messageId, s) = messageId_or_fresh g payload s;
                  null_read = TypeError ''Cannot read properties of null''
              in case (case type of
                         CallbackOnly \<Rightarrow> handler g this JUndefined JUndefined s
                       | Payload \<Rightarrow> handler g this payload JUndefined s
                       | PayloadAndSign \<Rightarrow>
                           if payload = JNull then (Inl null_read, s)
                           else handler g this (property payload ''data'') (property payload ''sign'') s
                       | SignOnly \<Rightarrow>
                           if payload = JNull then (Inl null_read, s)
                           else handler g this (property payload ''sign'') JUndefined s)
                 of (Inr promise, s) \<Rightarrow> (promise, s)
                  | (Inl (TypeError m), s) \<Rightarrow>
                      Promise_resolve (handleError cmd messageId (err methodNotFound m)) s))"

subsection \<open>Replies, timers and teardown\<close>

text \<open>
  \<^verbatim>\<open>
  const result = event.data;
  if (result && typeof result === 'object' && typeof result.messageId === 'string') {
    const messageId = result.messageId;
    const callback = this.messageCallbacks[messageId];
    if (callback) { this.cleanupCallback(messageId); callback.resolve(result); }
  }
  \<close>
  The registry is a plain object, so for a \<open>messageId\<close> that names a property of
  \<open>Object.prototype\<close> (\<open>constructor\<close>, \<open>toString\<close>, ...) \<open>callback\<close> is the inherited value:
  \<open>cleanupCallback\<close> finds no handle and no own property to delete, and \<open>callback.resolve\<close>
  is not a function, so the listener throws a \<open>TypeError\<close> and the state is as before. The
  function below returns the state, which it leaves unchanged for such a \<open>messageId\<close>; the
  tokens that the client generates are UUIDs, never such a name.
\<close>

definition messageHandler :: "nat \<Rightarrow> jsval \<Rightarrow> state \<Rightarrow> state" where
  "messageHandler this result s =
     (if truthy result \<and> typeof result = ''object''
         \<and> typeof (property result ''messageId'') = ''string'' then
        (let messageId = str (property result ''messageId'')
         in case map_of (callbacks_of s this) messageId of
              None \<Rightarrow> s
            | Some callback \<Rightarrow>
                (let s = cleanupCallback this messageId s
                 in call_resolve (resolve callback) result s))
      else s)"

text \<open>
  \<^verbatim>\<open>
  RelayXClient.instanceCount--;
  if (RelayXClient.instanceCount === 0 && RelayXClient.listenerFn) {
    window.removeEventListener("message", RelayXClient.listenerFn);
    RelayXClient.listenerFn = null;
  }
  Object.keys(this.messageCallbacks).forEach(messageId => {
    const callback = this.messageCallbacks[messageId];
    if (callback) {
      callback.resolve(this.handleError('', messageId, {
        code: ErrorCode.TimeoutError, message: 'Connection destroyed' }));
      if (callback.timeoutId) { window.clearTimeout(callback.timeoutId); }
    }
  });
  this.messageCallbacks = {};
  \<close>
\<close>

definition destroy_callback :: "(string \<times> callback) list \<Rightarrow> state \<Rightarrow> string \<Rightarrow> state" where
  "destroy_callback callbacks s messageId =
     (case map_of callbacks messageId of
        None \<Rightarrow> s
      | Some callback \<Rightarrow>
          (let s = call_resolve (resolve callback)
                     (handleError [] (JStr messageId) (err TimeoutError ''Connection destroyed'')) s
           in clear_if_set (timeoutId callback) s))"

definition destroy :: "nat \<Rightarrow> state \<Rightarrow> state" where
  "destroy this s =
     (let s = s\<lparr>instanceCount := instanceCount s - 1\<rparr>;
          s = (case listenerFn s of
                 Some f \<Rightarrow> if instanceCount s = 0
                           then s\<lparr>listeners := remove1 f (listeners s), listenerFn := None\<rparr>
                           else s
               | None \<Rightarrow> s);
          s = foldl (destroy_callback (callbacks_of s this)) s (map fst (callbacks_of s this))
      in set_callbacks this [] s)"

subsection \<open>Runs\<close>

text \<open>
  What can happen to the page: a client is constructed, the public methods
  \<open>sendMessage\<close> and \<open>destroy\<close> are called on a client that exists, the window delivers a
  \<open>message\<close> event to its listeners, an armed timer expires (and is no longer armed).
\<close>

datatype event =
    New RelayXClientConfig
  | Send nat string jsval
  | Destroy nat
  | Message jsval
  | Expire nat

definition deliver :: "jsval \<Rightarrow> state \<Rightarrow> state" where
  "deliver result s = foldl (\<lambda>s this. messageHandler this result s) s (listeners s)"

definition expire :: "nat \<Rightarrow> state \<Rightarrow> state" where
  "expire handle s =
     (case map_of (timers s) handle of
        None \<Rightarrow> s
      | Some tm \<Rightarrow>
          handleTimeout (timer_this tm) (timer_messageId tm) (timer_cmd tm)
            (s\<lparr>timers := AList.delete handle (timers s)\<rparr>))"

fun step :: "generator \<Rightarrow> state \<Rightarrow> event \<Rightarrow> state" where
  "step g s (New config) = constructor config s"
| "step g s (Send this cmd payload) =
     (if this < length (instances s) then snd (sendMessage g this cmd payload s) else s)"
| "step g s (Destroy this) = (if this < length (instances s) then destroy this s else s)"
| "step g s (Message result) = deliver result s"
| "step g s (Expire handle) = expire handle s"

definition run :: "generator \<Rightarrow> event list \<Rightarrow> state \<Rightarrow> state" where
  "run g evs s = foldl (step g) s evs"

section \<open>The statements of the specification\<close>

subsection \<open>Base64\<close>

text \<open>
  The size routine as the specification words it: strip any data-URI prefix up to and
  including the first comma, strip whitespace, and compute
  \<open>floor(len(stripped) * 3/4 - trailingPaddingCharCount)\<close>.
\<close>

definition spec_strip_prefix :: "string \<Rightarrow> string" where
  "spec_strip_prefix s =
     (if CHR '','' \<in> set s then tl (dropWhile (\<lambda>c. c \<noteq> CHR '','') s) else s)"

definition spec_base64_size :: "string \<Rightarrow> int" where
  "spec_base64_size s =
     (let stripped = filter (\<lambda>c. \<not> is_space c) (spec_strip_prefix s)
      in \<lfloor>real (length stripped) * 3 / 4 - real (padding_of stripped)\<rfloor>)"

text \<open>
  The standard Base64 encoding of a sequence of bytes (RFC 4648, with padding), which the
  specification compares the size routine with. The repository has no encoder; a byte is
  a natural number below 256.
\<close>

definition base64_alphabet :: string where
  "base64_alphabet = ''ABCDEFGHIJKLMNOPQRSTUVWXYZabcdefghijklmnopqrstuvwxyz0123456789+/''"

definition sextet :: "nat \<Rightarrow> char" where
  "sextet n = base64_alphabet ! (n mod 64)"

fun spec_base64_encode :: "nat list \<Rightarrow> string" where
  "spec_base64_encode [] = []"
| "spec_base64_encode [a] = [sextet (a div 4), sextet (a mod 4 * 16), CHR ''='', CHR ''='']"
| "spec_base64_encode [a, b] =
     [sextet (a div 4), sextet (a mod 4 * 16 + b div 16), sextet (b mod 16 * 4), CHR ''='']"
| "spec_base64_encode (a # b # c # bs) =
     [sextet (a div 4), sextet (a mod 4 * 16 + b div 16), sextet (b mod 16 * 4 + c div 64),
      sextet (c mod 64)] @ spec_base64_encode bs"

subsection \<open>An example generator\<close>

text \<open>A sequence of distinct, non-empty tokens, for the examples.\<close>

definition example_uuid :: generator where
  "example_uuid n = replicate (Suc n) CHR ''x''"

subsection \<open>What a call of \<open>sendMessage\<close> does\<close>

text \<open>
  Every call of \<open>sendMessage\<close> generates some tokens and then either returns a promise
  that is already settled or sends through \<open>_sendMessage\<close>, under its own command name.
\<close>

definition mint :: "nat \<Rightarrow> state \<Rightarrow> state" where
  "mint k s = s\<lparr>minted := minted s + k\<rparr>"

definition sends :: "generator \<Rightarrow> nat \<Rightarrow> string \<Rightarrow> state \<Rightarrow> nat \<times> state \<Rightarrow> bool" where
  "sends g this cmd s r \<longleftrightarrow>
     (\<exists>k. (\<exists>v. r = Promise_resolve v (mint k s))
        \<or> (\<exists>payload. r = private_sendMessage g this cmd payload None (mint k s)))"

definition sends_or_throws ::
  "generator \<Rightarrow> nat \<Rightarrow> string \<Rightarrow> state \<Rightarrow> (js_error + nat) \<times> state \<Rightarrow> bool" where
  "sends_or_throws g this cmd s r \<longleftrightarrow>
     (\<exists>p s'. r = (Inr p, s') \<and> sends g this cmd s (p, s')) \<or> (\<exists>e k. r = (Inl e, mint k s))"

subsection \<open>Lifecycle\<close>

text \<open>
  The configurations of the clients constructed by a run, in order, and the numbers of
  calls of the constructor and of \<open>destroy\<close>.
\<close>

fun configs :: "event list \<Rightarrow> RelayXClientConfig list" where
  "configs [] = []"
| "configs (New config # evs) = config # configs evs"
| "configs (e # evs) = configs evs"





text \<open>
  The configured timeout as the specification states it (the override if given, otherwise
  30000 ms), and as the constructor computes it.
\<close>

definition spec_configured_timeout :: "RelayXClientConfig \<Rightarrow> int" where
  "spec_configured_timeout config = (case timeout config of Some t \<Rightarrow> t | None \<Rightarrow> 30000)"

definition effective_timeout :: "RelayXClientConfig \<Rightarrow> int" where
  "effective_timeout config =
     (case timeout config of Some t \<Rightarrow> if t \<noteq> 0 then t else 30000 | None \<Rightarrow> 30000)"

text \<open>The part of the state that only the constructor and \<open>destroy\<close> change.\<close>

definition frame :: "state \<Rightarrow> int \<times> nat option \<times> nat list \<times> bool \<times> int list" where
  "frame s = (instanceCount s, listenerFn s, listeners s, parent s, map defaultTimeout (instances s))"


subsection \<open>Teardown\<close>

text \<open>
  What the loop of \<open>destroy\<close> over the keys \<open>ks\<close> of the registry \<open>cbs\<close> passes to the
  \<open>resolve\<close> functions, and the handles that it clears.
\<close>

definition destroyed_response :: "string \<Rightarrow> jsval" where
  "destroyed_response messageId = JObj [(''code'', JNum 30011), (''messageId'', JStr messageId)]"

fun resolved :: "(string \<times> callback) list \<Rightarrow> string list \<Rightarrow> (nat \<times> jsval) list" where
  "resolved cbs [] = []"
| "resolved cbs (k # ks) =
     (case map_of cbs k of
        None \<Rightarrow> resolved cbs ks
      | Some callback \<Rightarrow> (resolve callback, destroyed_response k) # resolved cbs ks)"

fun cleared :: "(string \<times> callback) list \<Rightarrow> string list \<Rightarrow> nat list" where
  "cleared cbs [] = []"
| "cleared cbs (k # ks) =
     (case map_of cbs k of
        None \<Rightarrow> cleared cbs ks
      | Some callback \<Rightarrow>
          (case timeoutId callback of
             None \<Rightarrow> cleared cbs ks
           | Some h \<Rightarrow> if h \<noteq> 0 then h # cleared cbs ks else cleared cbs ks))"

subsection \<open>Settlement\<close>

text \<open>
  The pending calls of a state, and the state after the pending call \<open>callback\<close>, registered
  under \<open>messageId\<close> in the client \<open>this\<close>, has been settled with \<open>v\<close>: its timer cleared,
  its entry deleted, its \<open>resolve\<close> function called.
\<close>

definition entries :: "state \<Rightarrow> (nat \<times> string \<times> callback) set" where
  "entries s =
     {(i, k, callback). i < length (instances s) \<and> map_of (callbacks_of s i) k = Some callback}"

definition settle :: "nat \<Rightarrow> string \<Rightarrow> callback \<Rightarrow> jsval \<Rightarrow> state \<Rightarrow> state" where
  "settle this messageId callback v s =
     call_resolve (resolve callback) v
       (set_callbacks this (AList.delete messageId (callbacks_of s this))
          (clear_if_set (timeoutId callback) s))"

text \<open>
  What every run keeps true. The keys of a registry are distinct and not empty, and the
  handles are positive; the promises of the pending calls are distinct, were created
  before, and none of them is settled; no promise was settled twice; the listeners and the
  timers belong to clients that exist.
\<close>

definition registry_ok :: "state \<Rightarrow> bool" where
  "registry_ok s \<longleftrightarrow>
     (\<forall>i < length (instances s). distinct (map fst (callbacks_of s i)))
     \<and> (\<forall>i k callback. (i, k, callback) \<in> entries s \<longrightarrow> k \<noteq> [] \<and> timeoutId callback \<noteq> Some 0)"

definition promises_ok :: "state \<Rightarrow> bool" where
  "promises_ok s \<longleftrightarrow>
     (\<forall>i k callback. (i, k, callback) \<in> entries s \<longrightarrow>
        resolve callback < promises s \<and> resolve callback \<notin> fst ` set (settled s))
     \<and> (\<forall>i k callback j k' callback'.
          (i, k, callback) \<in> entries s \<longrightarrow> (j, k', callback') \<in> entries s \<longrightarrow>
          resolve callback = resolve callback' \<longrightarrow> i = j \<and> k = k')
     \<and> (\<forall>p \<in> fst ` set (settled s). p < promises s)
     \<and> distinct (map fst (settled s))"

definition refs_ok :: "state \<Rightarrow> bool" where
  "refs_ok s \<longleftrightarrow>
     (\<forall>i \<in> set (listeners s). i < length (instances s))
     \<and> (\<forall>p \<in> set (timers s). timer_this (snd p) < length (instances s))"

definition inv :: "state \<Rightarrow> bool" where
  "inv s \<longleftrightarrow> registry_ok s \<and> promises_ok s \<and> refs_ok s"

subsection \<open>Fresh tokens\<close>

text \<open>
  From a state \<open>s\<close> to a later state \<open>t\<close>: the pending calls and the timers of \<open>t\<close> are
  those of \<open>s\<close>, or carry a token generated in between (and, for a pending call, a promise
  created in between).
\<close>

definition grows :: "generator \<Rightarrow> state \<Rightarrow> state \<Rightarrow> bool" where
  "grows g s t \<longleftrightarrow>
     minted s \<le> minted t \<and> promises s \<le> promises t
     \<and> (\<forall>i k cb. (i, k, cb) \<in> entries t \<longrightarrow>
           (i, k, cb) \<in> entries s \<or> (promises s \<le> resolve cb \<and> k \<in> g ` {minted s..<minted t}))
     \<and> (\<forall>p \<in> set (timers t).
           p \<in> set (timers s) \<or> timer_messageId (snd p) \<in> g ` {minted s..<minted t})"

text \<open>
  The tokens of the pending calls were generated before, and a token is pending in one
  client only.
\<close>

definition tokens_ok :: "generator \<Rightarrow> state \<Rightarrow> bool" where
  "tokens_ok g s \<longleftrightarrow>
     (\<forall>i k cb. (i, k, cb) \<in> entries s \<longrightarrow> k \<in> g ` {..<minted s})
     \<and> (\<forall>i j k cb cb'. (i, k, cb) \<in> entries s \<longrightarrow> (j, k, cb') \<in> entries s \<longrightarrow> i = j)"

section \<open>Properties\<close>

subsection \<open>Strings and Base64\<close>

lemma split_no_separator: "d \<notin> set s \<Longrightarrow> split d s = [s]"
  by (induction s) auto

lemma split_at_first: "d \<notin> set p \<Longrightarrow> split d (p @ d # b) = p # split d b"
  by (induction p) auto

lemma alphabet_chars:
  "c \<in> set base64_alphabet \<Longrightarrow> c \<noteq> CHR ''='' \<and> c \<noteq> CHR '','' \<and> \<not> is_space c"
  by (auto simp: base64_alphabet_def is_space_def)

lemma sextet_in: "sextet n \<in> set base64_alphabet"
proof -
  have "n mod 64 < length base64_alphabet" by (simp add: base64_alphabet_def)
  then show ?thesis unfolding sextet_def by (rule nth_mem)
qed

lemma sextet_plain [simp]:
  "sextet n \<noteq> CHR ''=''" "sextet n \<noteq> CHR '',''" "\<not> is_space (sextet n)"
  using alphabet_chars [OF sextet_in [of n]] by auto

lemma equals_plain [simp]: "\<not> is_space CHR ''=''"
  by (simp add: is_space_def)

lemma encode_chars:
  "c \<in> set (spec_base64_encode bs) \<Longrightarrow> c \<noteq> CHR '','' \<and> \<not> is_space c"
  by (induction bs rule: spec_base64_encode.induct) auto

lemma encode_length: "length (spec_base64_encode bs) = 4 * ((length bs + 2) div 3)"
proof (induction bs rule: spec_base64_encode.induct)
  case (4 a b c bs)
  have "(length (a # b # c # bs) + 2) div 3 = Suc ((length bs + 2) div 3)" by simp
  then show ?case using 4 by (simp del: length_Cons)
qed simp_all

lemma encode_has_sextet: "bs \<noteq> [] \<Longrightarrow> sextet (hd bs div 4) \<in> set (spec_base64_encode bs)"
  by (cases bs rule: spec_base64_encode.cases) simp_all

lemma encode_padding: "padding_of (spec_base64_encode bs) = (3 - length bs mod 3) mod 3"
proof (induction bs rule: spec_base64_encode.induct)
  case (4 a b c bs)
  show ?case
  proof (cases "bs = []")
    case True
    then show ?thesis by (simp add: padding_of_def)
  next
    case False
    define x where "x = sextet (hd bs div 4)"
    have x: "x \<in> set (rev (spec_base64_encode bs))" "x \<noteq> CHR ''=''"
      using encode_has_sextet [OF False] by (simp_all add: x_def)
    have "takeWhile (\<lambda>c. c = CHR ''='') (rev (spec_base64_encode bs) @ ys) =
          takeWhile (\<lambda>c. c = CHR ''='') (rev (spec_base64_encode bs))" for ys
      using x by (intro takeWhile_append1) auto
    then have "padding_of (spec_base64_encode (a # b # c # bs)) = padding_of (spec_base64_encode bs)"
      by (simp add: padding_of_def)
    then show ?thesis using 4 by simp
  qed
qed (simp_all add: padding_of_def)

lemma encoded_size_nat: "3 * ((n + 2) div 3) = n + (3 - n mod 3) mod (3::nat)"
proof -
  define q r where "q = n div 3" and "r = n mod 3"
  have n: "n = 3 * q + r" and r: "r < 3" by (simp_all add: q_def r_def)
  have d: "(n + 2) div 3 = q + (r + 2) div 3" unfolding n by simp
  from r consider "r = 0" | "r = 1" | "r = 2" by linarith
  then have "3 * (q + (r + 2) div 3) = 3 * q + r + (3 - r) mod 3"
    by cases simp_all
  then show ?thesis unfolding d r_def [symmetric] using n by simp
qed

lemma size_formula:
  "\<lfloor>real (4 * ((n + 2) div 3)) * 3 / 4 - real ((3 - n mod 3) mod 3)\<rfloor> = int n"
proof -
  have "real (4 * ((n + 2) div 3)) * 3 / 4 = real (3 * ((n + 2) div 3))" by simp
  also have "\<dots> = real n + real ((3 - n mod 3) mod 3)"
    by (simp only: encoded_size_nat of_nat_add)
  finally show ?thesis by simp
qed

lemma floor_bytes: "\<lfloor>real n * 3 / 4 - real p\<rfloor> = (3 * int n - 4 * int p) div 4"
proof -
  have "real n * 3 / 4 - real p = of_int (3 * int n - 4 * int p) / of_int 4" by simp
  then show ?thesis by (simp only: floor_divide_of_int_eq)
qed

lemma size_of_encoding: "getBase64ImageSize (spec_base64_encode bs) = int (length bs)"
proof -
  let ?e = "spec_base64_encode bs"
  have "CHR '','' \<notin> set ?e" using encode_chars by blast
  then have body: "base64_body ?e = ?e"
    by (simp add: base64_body_def split_no_separator at_index_def)
  have flt: "filter (\<lambda>c. \<not> is_space c) ?e = ?e"
    using encode_chars by (simp add: filter_id_conv)
  show ?thesis
    by (simp only: getBase64ImageSize_def Let_def body flt encode_length encode_padding size_formula)
qed

lemma size_agrees_without_comma: "CHR '','' \<notin> set s \<Longrightarrow> getBase64ImageSize s = spec_base64_size s"
  by (simp add: getBase64ImageSize_def spec_base64_size_def base64_body_def split_no_separator at_index_def spec_strip_prefix_def)

lemma size_agrees_single_comma:
  assumes "CHR '','' \<notin> set p" "CHR '','' \<notin> set b" "b \<noteq> []"
  shows "getBase64ImageSize (p @ CHR '','' # b) = spec_base64_size (p @ CHR '','' # b)"
proof -
  have "base64_body (p @ CHR '','' # b) = b"
    using assms by (simp add: base64_body_def split_at_first split_no_separator at_index_def)
  moreover have "dropWhile (\<lambda>c. c \<noteq> CHR '','') (p @ CHR '','' # b) = CHR '','' # b"
    using assms(1) by (simp add: dropWhile_append)
  then have "spec_strip_prefix (p @ CHR '','' # b) = b"
    by (simp add: spec_strip_prefix_def)
  ultimately show ?thesis by (simp add: getBase64ImageSize_def spec_base64_size_def)
qed

lemma handleError_err [simp]:
  "handleError cmd messageId (err c m) = JObj [(''code'', JNum (ErrorCode_value c)), (''messageId'', messageId)]"
  by (simp add: handleError_def err_def)

lemma handleError_no_message: "property (handleError cmd messageId options) ''message'' = JUndefined"
  by (simp add: handleError_def Let_def split: option.splits)

lemma body_without_comma: "CHR '','' \<notin> set s \<Longrightarrow> base64_body s = s"
  by (simp add: base64_body_def split_no_separator at_index_def)

lemma body_single_comma:
  "CHR '','' \<notin> set p \<Longrightarrow> CHR '','' \<notin> set b \<Longrightarrow>
   base64_body (p @ CHR '','' # b) = (if b = [] then p @ [CHR '',''] else b)"
  by (simp add: base64_body_def split_at_first split_no_separator at_index_def)

lemma body_two_commas:
  "CHR '','' \<notin> set p \<Longrightarrow> CHR '','' \<notin> set b \<Longrightarrow>
   base64_body (p @ CHR '','' # b @ CHR '','' # r) =
     (if b = [] then p @ CHR '','' # b @ CHR '','' # r else b)"
  by (simp add: base64_body_def split_at_first at_index_def)

lemma size_of_prefixed_encoding:
  assumes "CHR '','' \<notin> set p" "bs \<noteq> []"
  shows "getBase64ImageSize (p @ CHR '','' # spec_base64_encode bs) = int (length bs)"
proof -
  let ?e = "spec_base64_encode bs"
  have ne: "?e \<noteq> []" using encode_has_sextet [OF assms(2)] by auto
  have "CHR '','' \<notin> set ?e" using encode_chars by blast
  then have "base64_body (p @ CHR '','' # ?e) = ?e"
    using assms(1) ne by (simp add: body_single_comma)
  moreover have "base64_body ?e = ?e"
    using \<open>CHR '','' \<notin> set ?e\<close> by (rule body_without_comma)
  ultimately have "getBase64ImageSize (p @ CHR '','' # ?e) = getBase64ImageSize ?e"
    by (simp add: getBase64ImageSize_def)
  then show ?thesis by (simp add: size_of_encoding)
qed

lemma strip_prefix_at_first:
  "CHR '','' \<notin> set p \<Longrightarrow> spec_strip_prefix (p @ CHR '','' # b) = b"
  by (simp add: spec_strip_prefix_def dropWhile_append)

lemma size_of_bare_prefix:
  assumes "CHR '','' \<notin> set p"
  shows "getBase64ImageSize (p @ [CHR '','']) =
           (3 * (int (length (filter (\<lambda>c. \<not> is_space c) p)) + 1)) div 4"
proof -
  have b: "base64_body (p @ [CHR '','']) = p @ [CHR '','']"
    using body_single_comma [OF assms, of "[]"] by simp
  have f: "filter (\<lambda>c. \<not> is_space c) (p @ [CHR '','']) = filter (\<lambda>c. \<not> is_space c) p @ [CHR '','']"
    by (simp add: is_space_def)
  have pad: "padding_of (xs @ [CHR '','']) = 0" for xs by (simp add: padding_of_def)
  have "getBase64ImageSize (p @ [CHR '','']) =
      \<lfloor>real (length (filter (\<lambda>c. \<not> is_space c) p @ [CHR '',''])) * 3 / 4 - real (0::nat)\<rfloor>"
    by (simp only: getBase64ImageSize_def Let_def b f pad)
  also have "\<dots> = (3 * int (length (filter (\<lambda>c. \<not> is_space c) p @ [CHR '',''])) - 4 * int 0) div 4"
    by (rule floor_bytes)
  finally show ?thesis by (simp add: algebra_simps)
qed

text \<open>
  C9: the routine does not strip the prefix up to and including the first comma. It is
  documented to take the string with or without its data-URI prefix and starts with the
  comment \<open>// Remove prefix\<close>, but \<open>base64String.split(',')[1] || base64String\<close> takes the
  text between the first two commas and falls back to the whole input when that text is
  empty. For a prefix \<open>p\<close> and a text \<open>b\<close> without comma, \<open>b\<close> not empty: on \<open>p,\<close> the
  routine measures the whole input, prefix and comma included, where the specification
  strips the prefix and measures the empty text, 0 bytes; on \<open>p,b,r\<close> it measures \<open>b\<close>
  alone, whatever \<open>r\<close> is, where the specification measures \<open>b,r\<close>.
\<close>

theorem getBase64ImageSize_measures_second_segment:
  assumes "CHR '','' \<notin> set p" "CHR '','' \<notin> set b" "b \<noteq> []"
  shows "base64_body (p @ [CHR '','']) = p @ [CHR '','']
       \<and> getBase64ImageSize (p @ [CHR '','']) =
           (3 * (int (length (filter (\<lambda>c. \<not> is_space c) p)) + 1)) div 4
       \<and> spec_strip_prefix (p @ [CHR '','']) = []
       \<and> spec_base64_size (p @ [CHR '','']) = 0
       \<and> base64_body (p @ CHR '','' # b @ CHR '','' # r) = b
       \<and> getBase64ImageSize (p @ CHR '','' # b @ CHR '','' # r) = getBase64ImageSize b
       \<and> spec_strip_prefix (p @ CHR '','' # b @ CHR '','' # r) = b @ CHR '','' # r"
proof -
  have 1: "base64_body (p @ [CHR '','']) = p @ [CHR '','']"
    using body_single_comma [OF assms(1), of "[]"] by simp
  have 3: "spec_strip_prefix (p @ [CHR '','']) = []"
    using assms(1) by (rule strip_prefix_at_first)
  then have 4: "spec_base64_size (p @ [CHR '','']) = 0"
    by (simp add: spec_base64_size_def padding_of_def)
  have 5: "base64_body (p @ CHR '','' # b @ CHR '','' # r) = b"
    using assms by (simp add: body_two_commas)
  have "base64_body b = b" using assms(2) by (rule body_without_comma)
  then have 6: "getBase64ImageSize (p @ CHR '','' # b @ CHR '','' # r) = getBase64ImageSize b"
    by (simp add: getBase64ImageSize_def 5)
  have 7: "spec_strip_prefix (p @ CHR '','' # b @ CHR '','' # r) = b @ CHR '','' # r"
    using assms(1) by (rule strip_prefix_at_first)
  show ?thesis using 1 size_of_bare_prefix [OF assms(1)] 3 4 5 6 7 by blast
qed

theorem getBase64ImageSize_measures_second_segment_witness:
  "getBase64ImageSize ''data:image/png;base64,'' = 16
   \<and> spec_base64_size ''data:image/png;base64,'' = 0
   \<and> getBase64ImageSize ''data:image/png;base64,QUJD,QUJD'' = 3
   \<and> spec_base64_size ''data:image/png;base64,QUJD,QUJD'' = 6"
proof -
  have "getBase64ImageSize ''QUJD'' = 3"
    by (simp add: getBase64ImageSize_def base64_body_def at_index_def padding_of_def is_space_def
        floor_bytes del: of_nat_mult of_nat_add)
  moreover have "spec_base64_size ''data:image/png;base64,QUJD,QUJD'' = 6"
    by (simp add: spec_base64_size_def padding_of_def is_space_def spec_strip_prefix_def
        floor_bytes del: of_nat_mult of_nat_add)
  ultimately show ?thesis
    using getBase64ImageSize_measures_second_segment [of "''data:image/png;base64''" "''QUJD''" "''QUJD''"]
    by (simp add: is_space_def)
qed

text \<open>
  Where the routine and the specification agree. The routine measures the text between
  the first and the second comma (up to the end when there is one comma only), and the
  whole input when there is no comma or when that text is empty; it strips the whitespace
  and returns \<open>floor(len * 3/4 - trailing padding count)\<close>. This is the size that the
  specification words for every input with no comma and for every input with one comma
  and a non-empty text after it. For every sequence of \<open>N\<close> bytes, the routine
  returns \<open>N\<close> on its standard Base64 encoding, bare or (for \<open>N > 0\<close>) behind a
  data-URI prefix without comma.
\<close>

lemma getBase64ImageSize_decoded_length:
  "(CHR '','' \<notin> set s \<longrightarrow> base64_body s = s \<and> getBase64ImageSize s = spec_base64_size s)
   \<and> (CHR '','' \<notin> set p \<and> CHR '','' \<notin> set b \<and> b \<noteq> [] \<longrightarrow>
        base64_body (p @ CHR '','' # b) = b
        \<and> base64_body (p @ CHR '','' # b @ CHR '','' # r) = b
        \<and> getBase64ImageSize (p @ CHR '','' # b) = spec_base64_size (p @ CHR '','' # b))
   \<and> (CHR '','' \<notin> set p \<longrightarrow>
        base64_body (p @ [CHR '','']) = p @ [CHR '','']
        \<and> base64_body (p @ CHR '','' # CHR '','' # r) = p @ CHR '','' # CHR '','' # r)
   \<and> getBase64ImageSize s =
        (3 * int (length (filter (\<lambda>c. \<not> is_space c) (base64_body s)))
         - 4 * int (padding_of (filter (\<lambda>c. \<not> is_space c) (base64_body s)))) div 4
   \<and> getBase64ImageSize (spec_base64_encode bs) = int (length bs)
   \<and> (CHR '','' \<notin> set p \<and> bs \<noteq> [] \<longrightarrow>
        getBase64ImageSize (p @ CHR '','' # spec_base64_encode bs) = int (length bs))"
  using body_two_commas [of p "[]" r] body_two_commas [of p b r] body_single_comma [of p "[]"]
  by (simp add: body_without_comma body_single_comma size_agrees_without_comma
      size_agrees_single_comma size_of_encoding size_of_prefixed_encoding)
    (simp add: getBase64ImageSize_def Let_def floor_bytes del: of_nat_mult of_nat_add)

lemma getBase64ImageSize_decoded_length_example:
  "getBase64ImageSize ''QUJD'' = spec_base64_size ''QUJD''
   \<and> base64_body ''data:image/png;base64,QUJD'' = ''QUJD''
   \<and> getBase64ImageSize ''data:image/png;base64,QUJD'' = spec_base64_size ''data:image/png;base64,QUJD''
   \<and> spec_base64_encode [65, 66, 67] = ''QUJD''
   \<and> getBase64ImageSize (spec_base64_encode [65, 66, 67]) = 3
   \<and> getBase64ImageSize (''data:image/png;base64,'' @ spec_base64_encode [65, 66, 67]) = 3"
  using getBase64ImageSize_decoded_length [of "''QUJD''" "''data:image/png;base64''" "''QUJD''" "[]" "[65, 66, 67]"]
  by (simp add: sextet_def base64_alphabet_def)

subsection \<open>The window, the registry and sending\<close>

lemma property_string_object: "property payload k = JStr x \<Longrightarrow> truthy payload"
  by (cases payload) simp_all

lemma trim_nonempty:
  assumes "c \<in> set s" "\<not> is_space c"
  shows "trim s \<noteq> []"
proof -
  have "c \<notin> set (takeWhile is_space s)" using assms(2) by (auto dest: set_takeWhileD)
  moreover have "set s = set (takeWhile is_space s) \<union> set (dropWhile is_space s)"
    by (metis set_append takeWhile_dropWhile_id)
  ultimately have "c \<in> set (rev (dropWhile is_space s))" using assms(1) by simp
  then have "dropWhile is_space (rev (dropWhile is_space s)) \<noteq> []"
    using assms(2) by (auto simp: dropWhile_eq_Nil_conv)
  then show ?thesis by (simp add: trim_def)
qed

lemma image_prefix_nonblank:
  assumes "startsWith img ''data:image/''"
  shows "trim img \<noteq> []"
proof -
  from assms have e: "take (length ''data:image/'') img = ''data:image/''"
    by (simp only: startsWith_def)
  have "CHR ''d'' \<in> set ''data:image/''" by simp
  then have "CHR ''d'' \<in> set (take (length ''data:image/'') img)" by (simp only: e)
  then have "CHR ''d'' \<in> set img" by (rule in_set_takeD)
  then show ?thesis by (rule trim_nonempty) (simp add: is_space_def)
qed

lemma not_prefix_of_blank: "trim img = [] \<Longrightarrow> \<not> startsWith img ''data:image/''"
  using image_prefix_nonblank by blast

lemma callbacks_of_set_callbacks:
  "this < length (instances s) \<Longrightarrow>
   callbacks_of (set_callbacks this cbs s) i = (if i = this then cbs else callbacks_of s i)"
  by (simp add: callbacks_of_def set_callbacks_def nth_list_update)

lemma map_entry_update: "AList.map_entry k f (AList.update k v al) = AList.update k (f v) al"
  by (induction al) auto

lemma private_sendMessage_reachable:
  assumes "parent s" "this < length (instances s)"
  shows "private_sendMessage g this cmd payload timeoutMs_arg s =
     (promises s,
      if cmd \<noteq> ''openURL'' \<and> cmd \<noteq> ''scanQRCode'' then
        s\<lparr>promises := Suc (promises s), minted := Suc (minted s),
          posted := posted s @ [JObj (assign [(''cmd'', JStr cmd), (''messageId'', JStr (g (minted s)))] (spread payload))],
          instances := (instances s)[this := (instances s ! this)
             \<lparr>messageCallbacks := AList.update (g (minted s))
                \<lparr>resolve = promises s, timeoutId = Some (Suc (timerCount s))\<rparr> (callbacks_of s this)\<rparr>],
          timers := timers s @ [(Suc (timerCount s),
             \<lparr>timer_this = this, timer_messageId = g (minted s), timer_cmd = cmd,
              timer_delay = (case timeoutMs_arg of None \<Rightarrow> defaultTimeout (instances s ! this) | Some t \<Rightarrow> t)\<rparr>)],
          timerCount := Suc (timerCount s)\<rparr>
      else
        s\<lparr>promises := Suc (promises s), minted := Suc (minted s),
          posted := posted s @ [JObj (assign [(''cmd'', JStr cmd), (''messageId'', JStr (g (minted s)))] (spread payload))],
          instances := (instances s)[this := (instances s ! this)
             \<lparr>messageCallbacks := AList.update (g (minted s))
                \<lparr>resolve = promises s, timeoutId = None\<rparr> (callbacks_of s this)\<rparr>]\<rparr>)"
  using assms
  by (simp add: private_sendMessage_def new_promise_def generateUniqueMessageId_def postMessage_def
      set_callbacks_def callbacks_of_def setTimeout_def Let_def map_entry_update)

lemma cleanupCallback_absent:
  "map_of (callbacks_of s this) messageId = None \<Longrightarrow> cleanupCallback this messageId s = s"
  by (simp add: cleanupCallback_def)

lemma private_sendMessage_unreachable:
  assumes "\<not> parent s"
  shows "private_sendMessage g this cmd payload timeoutMs_arg s =
     (promises s,
      call_resolve (promises s)
        (JObj [(''code'', JNum 30001), (''messageId'', JStr (g (minted s)))])
        (cleanupCallback this (g (minted s)) (s\<lparr>promises := Suc (promises s), minted := Suc (minted s)\<rparr>)))"
  using assms
  by (simp add: private_sendMessage_def new_promise_def generateUniqueMessageId_def Let_def
      handleError_def)

subsection \<open>The size limit of \<open>saveImage\<close>\<close>

text \<open>
  C8: for every \<open>saveImage\<close> payload whose \<open>image\<close> is a string with the prefix
  \<open>data:image/\<close>, the call is sent when the computed size is at most 1048576 bytes
  (1 MiB, included) and is rejected with the code 30010 (exceeded upload size limit) when
  it is 1048577 or more; a string without the prefix is rejected with the code 30001
  (invalid payload), another kind. Every size is reached: the data URI of the encoding of
  \<open>N > 0\<close> bytes has the prefix and the computed size \<open>N\<close>.
\<close>

theorem saveImage_size_boundary:
  "(property payload ''image'' = JStr img \<longrightarrow>
      saveImage g this payload s =
        (let (messageId, s) = messageId_or_fresh g payload s
         in if \<not> startsWith img ''data:image/'' then
              Promise_resolve (JObj [(''code'', JNum 30001), (''messageId'', messageId)]) s
            else if getBase64ImageSize img \<le> 1048576 then
              private_sendMessage g this ''saveImage'' (JObj [(''data'', payload)]) None s
            else Promise_resolve (JObj [(''code'', JNum 30010), (''messageId'', messageId)]) s))
   \<and> (bs \<noteq> [] \<longrightarrow>
        startsWith (''data:image/png;base64,'' @ spec_base64_encode bs) ''data:image/''
        \<and> getBase64ImageSize (''data:image/png;base64,'' @ spec_base64_encode bs) = int (length bs))"
proof (intro conjI impI)
  assume img: "property payload ''image'' = JStr img"
  have t: "truthy payload" using img by (rule property_string_object)
  show "saveImage g this payload s =
        (let (messageId, s) = messageId_or_fresh g payload s
         in if \<not> startsWith img ''data:image/'' then
              Promise_resolve (JObj [(''code'', JNum 30001), (''messageId'', messageId)]) s
            else if getBase64ImageSize img \<le> 1048576 then
              private_sendMessage g this ''saveImage'' (JObj [(''data'', payload)]) None s
            else Promise_resolve (JObj [(''code'', JNum 30010), (''messageId'', messageId)]) s)"
    using image_prefix_nonblank [of img]
    by (simp add: saveImage_def img t Let_def split: prod.splits)
next
  assume "bs \<noteq> []"
  then show "getBase64ImageSize (''data:image/png;base64,'' @ spec_base64_encode bs) = int (length bs)"
    using size_of_prefixed_encoding [of "''data:image/png;base64''" bs] by simp
next
  show "startsWith (''data:image/png;base64,'' @ spec_base64_encode bs) ''data:image/''"
    by (simp add: startsWith_def)
qed

theorem saveImage_size_boundary_witness:
  "saveImage example_uuid 0 (JObj [(''image'', JStr ''data:image/png;base64,QUJD'')])
     (constructor \<lparr>timeout = None\<rparr> (initial True)) =
   private_sendMessage example_uuid 0 ''saveImage''
     (JObj [(''data'', JObj [(''image'', JStr ''data:image/png;base64,QUJD'')])]) None
     ((constructor \<lparr>timeout = None\<rparr> (initial True))\<lparr>minted := 1\<rparr>)
   \<and> getBase64ImageSize (''data:image/png;base64,'' @ spec_base64_encode [65, 66, 67]) = 3"
  using saveImage_size_boundary [of "JObj [(''image'', JStr ''data:image/png;base64,QUJD'')]"
      "''data:image/png;base64,QUJD''" example_uuid 0 "constructor \<lparr>timeout = None\<rparr> (initial True)"
      "[65, 66, 67]"]
  by (simp add: startsWith_def getBase64ImageSize_def base64_body_def at_index_def padding_of_def
      is_space_def floor_bytes messageId_or_fresh_def generateUniqueMessageId_def constructor_def
      initial_def sextet_def base64_alphabet_def del: of_nat_mult of_nat_add)

subsection \<open>The configured timeout\<close>

text \<open>
  C10: a client constructed with the option \<open>timeout\<close> set to 0, or without it, has
  the default timeout 30000, and the timer of a call that it sends is armed at 30000 ms:
  no configuration gives a client a default timeout of zero.
\<close>

theorem constructor_zero_timeout:
  "defaultTimeout (instances (constructor config s) ! length (instances s)) \<noteq> 0
   \<and> (timeout config = Some 0 \<or> timeout config = None \<longrightarrow>
        defaultTimeout (instances (constructor config s) ! length (instances s)) = 30000
        \<and> (parent s \<and> cmd \<noteq> ''openURL'' \<and> cmd \<noteq> ''scanQRCode'' \<longrightarrow>
             timers (snd (private_sendMessage g (length (instances s)) cmd payload None
                            (constructor config s))) =
             timers s @ [(Suc (timerCount s),
                \<lparr>timer_this = length (instances s), timer_messageId = g (minted s),
                 timer_cmd = cmd, timer_delay = 30000\<rparr>)]))"
proof -
  let ?s = "constructor config s"
  have len: "length (instances ?s) = Suc (length (instances s))"
    by (simp add: constructor_def Let_def split: option.splits)
  have fields: "parent ?s = parent s" "timers ?s = timers s" "timerCount ?s = timerCount s"
    "minted ?s = minted s"
    by (simp_all add: constructor_def Let_def split: option.splits)
  have d: "defaultTimeout (instances ?s ! length (instances s)) =
      (case timeout config of Some t \<Rightarrow> if t \<noteq> 0 then t else 30000 | None \<Rightarrow> 30000)"
    by (simp add: constructor_def Let_def split: option.splits)
  show ?thesis
    using private_sendMessage_reachable [of ?s "length (instances s)" g cmd payload None]
    by (auto simp: d len fields split: option.splits)
qed

theorem constructor_zero_timeout_witness:
  "defaultTimeout (instances (constructor \<lparr>timeout = Some 0\<rparr> (initial True)) ! 0) = 30000
   \<and> map (timer_delay \<circ> snd) (timers (snd (private_sendMessage example_uuid 0 ''getLanguage''
        (JObj [(''data'', JObj [])]) None (constructor \<lparr>timeout = Some 0\<rparr> (initial True))))) = [30000]"
  using constructor_zero_timeout [of "\<lparr>timeout = Some 0\<rparr>" "initial True" "''getLanguage''"
      example_uuid "JObj [(''data'', JObj [])]"]
  by (simp add: initial_def)

lemma mint_0 [simp]: "mint 0 s = s"
  by (simp add: mint_def)

lemma mint_mint [simp]: "mint k (mint j s) = mint (j + k) s"
  by (simp add: mint_def add.assoc)

lemma sends_resolve: "sends g this cmd s (Promise_resolve v s)"
  unfolding sends_def by (rule exI [of _ 0]) auto

lemma sends_send: "sends g this cmd s (private_sendMessage g this cmd payload None s)"
  unfolding sends_def by (rule exI [of _ 0]) auto

lemma sends_mint: "sends g this cmd (mint j s) r \<Longrightarrow> sends g this cmd s r"
  unfolding sends_def by (metis mint_mint)

lemma sends_fresh:
  assumes "\<And>messageId s'. sends g this cmd s' (f messageId s')"
  shows "sends g this cmd s (case messageId_or_fresh g payload s of (messageId, s') \<Rightarrow> f messageId s')"
proof (cases "truthy (property payload ''messageId'')")
  case True
  then show ?thesis using assms by (simp add: messageId_or_fresh_def)
next
  case False
  have "sends g this cmd (mint 1 s) (f (JStr (g (minted s))) (mint 1 s))" by (rule assms)
  then have "sends g this cmd s (f (JStr (g (minted s))) (mint 1 s))" by (rule sends_mint)
  then show ?thesis using False
    by (simp add: messageId_or_fresh_def generateUniqueMessageId_def mint_def)
qed

lemmas sends_intros = sends_resolve sends_send

lemma connectCocoPay_sends: "sends g this ''connectCocoPay'' s (connectCocoPay g this payload s)"
  unfolding connectCocoPay_def Let_def by (rule sends_fresh) (simp add: sends_intros)

lemma openURL_sends: "sends g this ''openURL'' s (openURL g this payload s)"
  unfolding openURL_def Let_def by (rule sends_fresh) (simp add: sends_intros)

lemma copyToClipboard_sends: "sends g this ''copyToClipboard'' s (copyToClipboard g this payload s)"
  unfolding copyToClipboard_def Let_def by (rule sends_fresh) (simp add: sends_intros)

lemma saveImage_sends: "sends g this ''saveImage'' s (saveImage g this payload s)"
  unfolding saveImage_def Let_def by (rule sends_fresh) (simp add: sends_intros)

lemma generateSignature_sends: "sends g this ''generateSignature'' s (generateSignature g this payload s)"
  unfolding generateSignature_def Let_def by (rule sends_fresh) (simp add: sends_intros)

lemma verifySignature_sends: "sends g this ''verifySignature'' s (verifySignature g this payload s)"
  unfolding verifySignature_def Let_def by (rule sends_fresh) (simp add: sends_intros)

lemma encrypt_sends: "sends g this ''encrypt'' s (encrypt g this payload s)"
  unfolding encrypt_def Let_def by (rule sends_fresh) (simp add: sends_intros)

lemma decrypt_sends: "sends g this ''decrypt'' s (decrypt g this payload s)"
  unfolding decrypt_def Let_def by (rule sends_fresh) (simp add: sends_intros)

lemma registerService_sends:
  "sends g this ''registerService'' s (registerService g this payload sigInfo s)"
  unfolding registerService_def Let_def by (rule sends_fresh) (simp add: sends_intros)

lemma checkServiceStatus_sends:
  "sends g this ''checkServiceStatus'' s (checkServiceStatus g this sigInfo s)"
  unfolding checkServiceStatus_def Let_def by (rule sends_fresh) (simp add: sends_intros)

lemma sendServiceMessage_sends:
  "sends g this ''sendServiceMessage'' s (sendServiceMessage g this payload sigInfo s)"
  unfolding sendServiceMessage_def Let_def by (rule sends_fresh) (simp add: sends_intros)

lemma returned_sends: "sends g this cmd s r \<Longrightarrow> sends_or_throws g this cmd s (returned r)"
  by (cases r) (simp add: sends_or_throws_def returned_def)

lemma sends_or_throws_mint:
  "sends_or_throws g this cmd (mint j s) r \<Longrightarrow> sends_or_throws g this cmd s r"
  unfolding sends_or_throws_def by (metis sends_mint mint_mint)

lemma sends_or_throws_fresh:
  assumes "\<And>messageId s'. sends_or_throws g this cmd s' (f messageId s')"
  shows "sends_or_throws g this cmd s
           (case messageId_or_fresh g payload s of (messageId, s') \<Rightarrow> f messageId s')"
proof (cases "truthy (property payload ''messageId'')")
  case True
  then show ?thesis using assms by (simp add: messageId_or_fresh_def)
next
  case False
  have "sends_or_throws g this cmd (mint 1 s) (f (JStr (g (minted s))) (mint 1 s))" by (rule assms)
  then have "sends_or_throws g this cmd s (f (JStr (g (minted s))) (mint 1 s))"
    by (rule sends_or_throws_mint)
  then show ?thesis using False
    by (simp add: messageId_or_fresh_def generateUniqueMessageId_def mint_def)
qed

lemma sends_or_throws_Inr:
  "sends g this cmd s r \<Longrightarrow> sends_or_throws g this cmd s (case r of (promise, s') \<Rightarrow> (Inr promise, s'))"
  by (cases r) (simp add: sends_or_throws_def)

lemma sends_or_throws_Inl: "sends_or_throws g this cmd s (Inl e, s)"
  unfolding sends_or_throws_def by (rule disjI2) (metis mint_0)

lemma getAccount_sends: "sends_or_throws g this ''getAccount'' s (getAccount g this payload s)"
  unfolding getAccount_def Let_def
  by (rule sends_or_throws_fresh)
    (auto intro!: sends_or_throws_Inr sends_or_throws_Inl sends_intros split: sum.splits)

lemma setExtendedData_sends:
  "sends_or_throws g this ''setExtendedData'' s (setExtendedData g this payload s)"
  unfolding setExtendedData_def Let_def
  by (rule sends_or_throws_fresh)
    (auto intro!: sends_or_throws_Inr sends_or_throws_Inl sends_intros split: sum.splits)

lemma handler_sends:
  assumes "map_of commandMap cmd = Some (type, handler)"
  shows "sends_or_throws g this cmd s (handler g this a b s)"
proof -
  have "(cmd, type, handler) \<in> set commandMap" using assms by (rule map_of_SomeD)
  then show ?thesis
    unfolding commandMap_def
    by (auto intro!: returned_sends sends_send connectCocoPay_sends openURL_sends
        copyToClipboard_sends saveImage_sends generateSignature_sends verifySignature_sends
        encrypt_sends decrypt_sends registerService_sends checkServiceStatus_sends
        sendServiceMessage_sends getAccount_sends setExtendedData_sends
        simp: getSafeAreaInsets_def getLanguage_def scanQRCode_def getExtendedData_def)
qed

lemma sends_caught:
  assumes "sends_or_throws g this cmd s r"
  shows "sends g this cmd s
           (case r of (Inr promise, s') \<Rightarrow> (promise, s')
                    | (Inl (TypeError m), s') \<Rightarrow> Promise_resolve (f m) s')"
  using assms unfolding sends_or_throws_def
proof (elim disjE exE conjE)
  fix p s' assume "r = (Inr p, s')" "sends g this cmd s (p, s')"
  then show ?thesis by simp
next
  fix e k assume r: "r = (Inl e, mint k s)"
  obtain m where e: "e = TypeError m" by (cases e)
  have "sends g this cmd s (Promise_resolve (f m) (mint k s))"
    by (rule sends_mint) (rule sends_resolve)
  then show ?thesis by (simp add: r e)
qed

lemma sendMessage_sends: "sends g this cmd s (sendMessage g this cmd payload s)"
proof (cases "map_of commandMap cmd")
  case None
  then show ?thesis
    unfolding sendMessage_def Let_def
    by (auto intro!: sends_send sends_fresh [where f = "\<lambda>m s. private_sendMessage g this cmd _ None s"])
next
  case (Some th)
  obtain type handler where th: "th = (type, handler)" by (cases th)
  note h = handler_sends [OF Some [unfolded th], of g this]
  show ?thesis
    unfolding sendMessage_def Let_def Some th option.case prod.case
    apply (rule sends_fresh)
    apply (rule sends_caught)
    apply (cases type)
       apply (auto intro: h sends_or_throws_Inl)
    done
qed

subsection \<open>The part of the state that sending and settling leave alone\<close>

lemma defaults_set_callbacks:
  "map defaultTimeout ((instances s)[this := (instances s ! this)\<lparr>messageCallbacks := cbs\<rparr>]) =
   map defaultTimeout (instances s)"
proof (cases "this < length (instances s)")
  case True
  then show ?thesis by (simp add: map_update list_update_same_conv)
next
  case False
  then have "length (instances s) \<le> this" by simp
  then show ?thesis by (simp only: list_update_beyond)
qed

lemma frame_set_callbacks [simp]: "frame (set_callbacks this cbs s) = frame s"
  by (simp add: frame_def set_callbacks_def defaults_set_callbacks)

lemma frame_update [simp]:
  "frame (s\<lparr>timers := ts\<rparr>) = frame s"
  "frame (s\<lparr>timerCount := tc\<rparr>) = frame s"
  "frame (s\<lparr>promises := np\<rparr>) = frame s"
  "frame (s\<lparr>minted := nm\<rparr>) = frame s"
  "frame (s\<lparr>posted := ms\<rparr>) = frame s"
  "frame (s\<lparr>settled := vs\<rparr>) = frame s"
  by (simp_all add: frame_def)

lemma frame_simple [simp]:
  "frame (clearTimeout h s) = frame s"
  "frame (clear_if_set tid s) = frame s"
  "frame (call_resolve p v s) = frame s"
  "frame (postMessage message s) = frame s"
  "frame (mint k s) = frame s"
  "frame (snd (new_promise s)) = frame s"
  "frame (snd (setTimeout tm s)) = frame s"
  "frame (snd (Promise_resolve v s)) = frame s"
  by (simp_all add: clearTimeout_def clear_if_set_def call_resolve_def postMessage_def
      mint_def new_promise_def setTimeout_def Promise_resolve_def Let_def split: option.splits)

lemma frame_cleanupCallback [simp]: "frame (cleanupCallback this messageId s) = frame s"
  by (simp add: cleanupCallback_def Let_def split: option.splits)

lemma frame_handleTimeout [simp]: "frame (handleTimeout this messageId cmd s) = frame s"
  by (simp add: handleTimeout_def Let_def split: option.splits)

lemma frame_messageHandler [simp]: "frame (messageHandler this result s) = frame s"
  by (simp add: messageHandler_def Let_def split: option.splits)

lemma frame_deliver_fold:
  "frame (foldl (\<lambda>s this. messageHandler this result s) s bound) = frame s"
  by (induction bound arbitrary: s) simp_all

lemma frame_deliver [simp]: "frame (deliver result s) = frame s"
  by (simp add: deliver_def frame_deliver_fold)

lemma frame_expire [simp]: "frame (expire handle s) = frame s"
  by (simp add: expire_def split: option.splits)

lemma frame_private_sendMessage [simp]:
  "frame (snd (private_sendMessage g this cmd payload timeoutMs_arg s)) = frame s"
proof (cases "parent s")
  case True
  then show ?thesis
    by (simp add: private_sendMessage_def new_promise_def generateUniqueMessageId_def Let_def
        setTimeout_def)
next
  case False
  then show ?thesis by (simp add: private_sendMessage_unreachable)
qed

lemma frame_sendMessage [simp]: "frame (snd (sendMessage g this cmd payload s)) = frame s"
proof -
  have "sends g this cmd s (sendMessage g this cmd payload s)" by (rule sendMessage_sends)
  then obtain k where
    "(\<exists>v. sendMessage g this cmd payload s = Promise_resolve v (mint k s))
     \<or> (\<exists>p. sendMessage g this cmd payload s = private_sendMessage g this cmd p None (mint k s))"
    unfolding sends_def by blast
  then show ?thesis by (elim disjE exE) simp_all
qed

lemma frame_length: "frame s' = frame s \<Longrightarrow> length (instances s') = length (instances s)"
  unfolding frame_def by (metis length_map prod.inject)

lemma frame_destroy_fold:
  "frame (foldl (destroy_callback cbs) s ks) = frame s"
  by (induction ks arbitrary: s) (simp_all add: destroy_callback_def Let_def split: option.splits)

lemma frame_same_step:
  "frame (step g s (Send this cmd payload)) = frame s"
  "frame (step g s (Message result)) = frame s"
  "frame (step g s (Expire handle)) = frame s"
  by simp_all

lemma destroy_frame:
  "instanceCount (destroy this s) = instanceCount s - 1"
  "listenerFn (destroy this s) = (if instanceCount s = 1 then None else listenerFn s)"
  "listeners (destroy this s) =
     (case listenerFn s of
        Some f \<Rightarrow> if instanceCount s = 1 then remove1 f (listeners s) else listeners s
      | None \<Rightarrow> listeners s)"
  "parent (destroy this s) = parent s"
  "map defaultTimeout (instances (destroy this s)) = map defaultTimeout (instances s)"
proof -
  define s1 where "s1 = s\<lparr>instanceCount := instanceCount s - 1\<rparr>"
  define s2 where "s2 = (case listenerFn s1 of
                 Some f \<Rightarrow> if instanceCount s1 = 0
                           then s1\<lparr>listeners := remove1 f (listeners s1), listenerFn := None\<rparr>
                           else s1
               | None \<Rightarrow> s1)"
  define s3 where "s3 = foldl (destroy_callback (callbacks_of s2 this)) s2 (map fst (callbacks_of s2 this))"
  have d: "destroy this s = set_callbacks this [] s3"
    unfolding destroy_def Let_def s1_def s2_def s3_def by (rule refl)
  have f: "frame (destroy this s) = frame s2"
    by (simp add: d s3_def frame_destroy_fold)
  have s2: "instanceCount s2 = instanceCount s - 1"
    "listenerFn s2 = (if instanceCount s = 1 then None else listenerFn s)"
    "listeners s2 = (case listenerFn s of
        Some f \<Rightarrow> if instanceCount s = 1 then remove1 f (listeners s) else listeners s
      | None \<Rightarrow> listeners s)"
    "parent s2 = parent s"
    "map defaultTimeout (instances s2) = map defaultTimeout (instances s)"
    by (auto simp: s2_def s1_def split: option.splits)
  from f have "instanceCount (destroy this s) = instanceCount s2"
    "listenerFn (destroy this s) = listenerFn s2" "listeners (destroy this s) = listeners s2"
    "parent (destroy this s) = parent s2"
    "map defaultTimeout (instances (destroy this s)) = map defaultTimeout (instances s2)"
    by (simp_all add: frame_def)
  then show "instanceCount (destroy this s) = instanceCount s - 1"
  "listenerFn (destroy this s) = (if instanceCount s = 1 then None else listenerFn s)"
  "listeners (destroy this s) =
     (case listenerFn s of
        Some f \<Rightarrow> if instanceCount s = 1 then remove1 f (listeners s) else listeners s
      | None \<Rightarrow> listeners s)"
  "parent (destroy this s) = parent s"
  "map defaultTimeout (instances (destroy this s)) = map defaultTimeout (instances s)"
    by (simp_all add: s2)
qed

lemma constructor_frame:
  "instanceCount (constructor config s) = instanceCount s + 1"
  "listenerFn (constructor config s) =
     (case listenerFn s of None \<Rightarrow> Some (length (instances s)) | Some f \<Rightarrow> Some f)"
  "listeners (constructor config s) =
     (case listenerFn s of None \<Rightarrow> listeners s @ [length (instances s)] | Some f \<Rightarrow> listeners s)"
  "parent (constructor config s) = parent s"
  "map defaultTimeout (instances (constructor config s)) =
     map defaultTimeout (instances s) @ [effective_timeout config]"
  by (simp_all add: constructor_def Let_def effective_timeout_def split: option.splits)

subsection \<open>The shared listener\<close>

lemma constructor_length: "length (instances (constructor config s)) = Suc (length (instances s))"
  by (simp add: constructor_def Let_def split: option.splits)

lemma destroy_length: "length (instances (destroy this s)) = length (instances s)"
  using destroy_frame(5) [of this s] by (rule map_eq_imp_length_eq)











subsection \<open>Arming the timer\<close>

lemma step_defaults:
  "parent (step g s e) = parent s
   \<and> map defaultTimeout (instances (step g s e)) =
       map defaultTimeout (instances s) @ map effective_timeout (configs [e])"
proof (cases e)
  case (New config)
  then show ?thesis by (simp add: constructor_frame)
next
  case (Destroy this)
  then show ?thesis by (simp add: destroy_frame)
next
  case (Send this cmd payload)
  have "frame (step g s e) = frame s" unfolding Send by (rule frame_same_step)
  then show ?thesis by (simp add: frame_def Send)
next
  case (Message result)
  have "frame (step g s e) = frame s" unfolding Message by (rule frame_same_step)
  then show ?thesis by (simp add: frame_def Message)
next
  case (Expire handle)
  have "frame (step g s e) = frame s" unfolding Expire by (rule frame_same_step)
  then show ?thesis by (simp add: frame_def Expire)
qed

lemma configs_Cons: "configs (e # evs) = configs [e] @ configs evs"
  by (cases e) simp_all

lemma run_defaults:
  "parent (run g evs s) = parent s
   \<and> map defaultTimeout (instances (run g evs s)) =
       map defaultTimeout (instances s) @ map effective_timeout (configs evs)"
proof (induction evs arbitrary: s)
  case Nil
  then show ?case by (simp add: run_def)
next
  case (Cons e evs)
  have r: "run g (e # evs) s = run g evs (step g s e)" by (simp add: run_def)
  show ?case
    unfolding r using Cons.IH [of "step g s e"] step_defaults [of g s e] configs_Cons [of e evs]
    by simp
qed

text \<open>
  C7, with the configured timeout as the specification states it (the override if given),
  fails for the override 0: the client keeps 30000, and the timer of its call is armed at
  30000 ms.
\<close>

theorem timer_counterexample:
  "map (timer_delay \<circ> snd)
     (timers (run example_uuid [New \<lparr>timeout = Some 0\<rparr>, Send 0 ''getLanguage'' JUndefined]
        (initial True))) = [30000]
   \<and> spec_configured_timeout \<lparr>timeout = Some 0\<rparr> = 0"
  by (simp add: run_def constructor_def initial_def Let_def sendMessage_def commandMap_def
      messageId_or_fresh_def generateUniqueMessageId_def returned_def getLanguage_def
      private_sendMessage_def new_promise_def postMessage_def set_callbacks_def callbacks_of_def
      setTimeout_def spec_configured_timeout_def)

subsection \<open>The response when the host is unreachable\<close>

text \<open>
  C6: without a parent window the call resolves at once with the code 30001 and the
  registry is unchanged; the response has no \<open>message\<close>, since \<open>handleError\<close> does not
  store the message that it is given.
\<close>

theorem unreachable_host_response:
  assumes "\<not> parent s" "map_of (callbacks_of s this) (g (minted s)) = None"
  shows "private_sendMessage g this cmd payload timeoutMs_arg s =
           (promises s,
            s\<lparr>promises := Suc (promises s), minted := Suc (minted s),
              settled := settled s @
                [(promises s, JObj [(''code'', JNum 30001), (''messageId'', JStr (g (minted s)))])]\<rparr>)
         \<and> property (JObj [(''code'', JNum 30001), (''messageId'', JStr (g (minted s)))]) ''message''
             = JUndefined"
proof -
  have "map_of (callbacks_of (s\<lparr>promises := Suc (promises s), minted := Suc (minted s)\<rparr>) this)
          (g (minted s)) = None"
    using assms(2) by (simp add: callbacks_of_def)
  then show ?thesis
    by (simp add: private_sendMessage_unreachable [OF assms(1)] cleanupCallback_absent
        call_resolve_def)
qed

theorem unreachable_host_response_witness:
  "snd (sendMessage example_uuid 0 ''openURL'' (JObj [(''url'', JStr ''https://example.com'')])
     (constructor \<lparr>timeout = None\<rparr> (initial False))) =
   (constructor \<lparr>timeout = None\<rparr> (initial False))
     \<lparr>promises := 1, minted := 3,
      settled := [(0, JObj [(''code'', JNum 30001), (''messageId'', JStr ''xxx'')])]\<rparr>"
proof -
  let ?s = "constructor \<lparr>timeout = None\<rparr> (initial False)"
  have "sendMessage example_uuid 0 ''openURL'' (JObj [(''url'', JStr ''https://example.com'')]) ?s =
        private_sendMessage example_uuid 0 ''openURL''
          (JObj [(''data'', JObj [(''url'', JStr ''https://example.com'')])]) None (?s\<lparr>minted := Suc (Suc 0)\<rparr>)"
    by (simp add: sendMessage_def commandMap_def returned_def openURL_def messageId_or_fresh_def
        generateUniqueMessageId_def Let_def startsWith_def trim_def is_space_def constructor_def
        initial_def)
  moreover have "\<not> parent (?s\<lparr>minted := Suc (Suc 0)\<rparr>)"
    "map_of (callbacks_of (?s\<lparr>minted := Suc (Suc 0)\<rparr>) 0) (example_uuid (minted (?s\<lparr>minted := Suc (Suc 0)\<rparr>))) = None"
    by (simp_all add: constructor_def initial_def Let_def callbacks_of_def)
  ultimately show ?thesis
    using unreachable_host_response [of "?s\<lparr>minted := Suc (Suc 0)\<rparr>" 0 example_uuid "''openURL''"
        "JObj [(''data'', JObj [(''url'', JStr ''https://example.com'')])]" None]
    by (simp add: constructor_def initial_def Let_def example_uuid_def)
qed

subsection \<open>The outgoing message\<close>

lemma map_of_assign:
  "distinct (map fst kvs) \<Longrightarrow>
   map_of (assign obj kvs) k = (case map_of kvs k of Some v \<Rightarrow> Some v | None \<Rightarrow> map_of obj k)"
proof (induction kvs arbitrary: obj)
  case Nil
  then show ?case by (simp add: assign_def)
next
  case (Cons kv kvs)
  obtain k' v' where kv: "kv = (k', v')" by (cases kv)
  have a: "assign obj (kv # kvs) = assign (AList.update k' v' obj) kvs"
    by (simp add: assign_def kv)
  have n: "map_of kvs k' = None" using Cons.prems by (simp add: kv map_of_eq_None_iff)
  have "map_of (assign (AList.update k' v' obj) kvs) k =
        (case map_of kvs k of Some v \<Rightarrow> Some v | None \<Rightarrow> map_of (AList.update k' v' obj) k)"
    using Cons.prems by (intro Cons.IH) simp
  then show ?case
    unfolding a using n by (auto simp: kv update_conv' split: option.splits)
qed

text \<open>
  C3: a command that is not in the command table is sent with the payload of the caller,
  and \<open>{ cmd, messageId, ...payload }\<close> lets the payload overwrite the two reserved
  fields: the message carries the \<open>cmd\<close> and the \<open>messageId\<close> of the payload when it has
  them, while the pending call is registered under the generated token.
\<close>

theorem payload_overwrites_reserved_fields:
  assumes "map_of commandMap cmd = None" "cmd \<notin> set Object_prototype"
    and "parent s" "this < length (instances s)" "distinct (map fst kvs)"
  shows "(let (promise, s') = sendMessage g this cmd (JObj kvs) s; message = last (posted s')
          in posted s' = posted s @ [message]
             \<and> property message ''cmd'' =
                 (case map_of kvs ''cmd'' of Some v \<Rightarrow> v | None \<Rightarrow> JStr cmd)
             \<and> property message ''messageId'' =
                 (case map_of kvs ''messageId'' of Some v \<Rightarrow> v | None \<Rightarrow> JStr (g (minted s)))
             \<and> (\<exists>tid. map_of (callbacks_of s' this) (g (minted s)) =
                   Some \<lparr>resolve = promise, timeoutId = tid\<rparr>))"
proof -
  have s: "sendMessage g this cmd (JObj kvs) s = private_sendMessage g this cmd (JObj kvs) None s"
    using assms(1,2) by (simp add: sendMessage_def)
  show ?thesis
    unfolding s private_sendMessage_reachable [OF assms(3,4)]
    by (simp add: map_of_assign [OF assms(5)] callbacks_of_def update_conv' assms(4)
        split: option.splits)
qed

theorem payload_overwrites_reserved_fields_witness:
  "posted (snd (sendMessage example_uuid 0 ''customCommand''
      (JObj [(''messageId'', JStr ''abc''), (''cmd'', JStr ''other'')])
      (constructor \<lparr>timeout = None\<rparr> (initial True)))) =
     [JObj [(''cmd'', JStr ''other''), (''messageId'', JStr ''abc'')]]
   \<and> map fst (callbacks_of (snd (sendMessage example_uuid 0 ''customCommand''
      (JObj [(''messageId'', JStr ''abc''), (''cmd'', JStr ''other'')])
      (constructor \<lparr>timeout = None\<rparr> (initial True)))) 0) = [''x'']"
proof -
  let ?s = "constructor \<lparr>timeout = None\<rparr> (initial True)"
  let ?kvs = "[(''messageId'', JStr ''abc''), (''cmd'', JStr ''other'')]"
  have h: "map_of commandMap ''customCommand'' = None" "''customCommand'' \<notin> set Object_prototype"
    "parent ?s" "0 < length (instances ?s)" "distinct (map fst ?kvs)"
    by (simp_all add: commandMap_def Object_prototype_def constructor_def initial_def Let_def)
  have s: "sendMessage example_uuid 0 ''customCommand'' (JObj ?kvs) ?s =
           private_sendMessage example_uuid 0 ''customCommand'' (JObj ?kvs) None ?s"
    using h(1,2) by (simp add: sendMessage_def)
  show ?thesis
    using payload_overwrites_reserved_fields [OF h, of example_uuid]
    unfolding s private_sendMessage_reachable [OF h(3,4)]
    by (simp add: assign_def callbacks_of_def constructor_def initial_def Let_def example_uuid_def)
qed

subsection \<open>Replies reach one client only\<close>

lemma callbacks_of_other:
  "i \<noteq> this \<Longrightarrow> callbacks_of (set_callbacks this cbs s) i = callbacks_of s i"
  by (simp add: callbacks_of_def set_callbacks_def)

lemma callbacks_of_update [simp]:
  "callbacks_of (s\<lparr>timers := ts\<rparr>) i = callbacks_of s i"
  "callbacks_of (s\<lparr>settled := vs\<rparr>) i = callbacks_of s i"
  "callbacks_of (s\<lparr>promises := np\<rparr>) i = callbacks_of s i"
  "callbacks_of (s\<lparr>minted := nm\<rparr>) i = callbacks_of s i"
  "callbacks_of (s\<lparr>timerCount := tc\<rparr>) i = callbacks_of s i"
  "callbacks_of (s\<lparr>posted := ms\<rparr>) i = callbacks_of s i"
  "callbacks_of (s\<lparr>instanceCount := ic\<rparr>) i = callbacks_of s i"
  "callbacks_of (s\<lparr>listenerFn := fn\<rparr>) i = callbacks_of s i"
  "callbacks_of (s\<lparr>listeners := ls\<rparr>) i = callbacks_of s i"
  by (simp_all add: callbacks_of_def)

lemma callbacks_of_simple [simp]:
  "callbacks_of (clearTimeout h s) i = callbacks_of s i"
  "callbacks_of (clear_if_set tid s) i = callbacks_of s i"
  "callbacks_of (call_resolve p v s) i = callbacks_of s i"
  by (simp_all add: clearTimeout_def clear_if_set_def call_resolve_def split: option.splits)

lemma cleanupCallback_other:
  "i \<noteq> this \<Longrightarrow> callbacks_of (cleanupCallback this messageId s) i = callbacks_of s i"
  by (simp add: cleanupCallback_def Let_def callbacks_of_other split: option.splits)

lemma messageHandler_other:
  "i \<noteq> this \<Longrightarrow> callbacks_of (messageHandler this result s) i = callbacks_of s i"
  by (simp add: messageHandler_def Let_def cleanupCallback_other split: option.splits)

lemma settled_simple [simp]:
  "settled (clearTimeout h s) = settled s"
  "settled (clear_if_set tid s) = settled s"
  "settled (set_callbacks this cbs s) = settled s"
  "settled (call_resolve p v s) = settled s @ [(p, v)]"
  by (simp_all add: clearTimeout_def clear_if_set_def set_callbacks_def call_resolve_def
      split: option.splits)

lemma settled_cleanupCallback [simp]: "settled (cleanupCallback this messageId s) = settled s"
  by (simp add: cleanupCallback_def Let_def split: option.splits)

lemma messageHandler_settled:
  "settled (messageHandler this result s) = settled s
   \<or> (\<exists>callback. map_of (callbacks_of s this) (str (property result ''messageId'')) = Some callback
        \<and> settled (messageHandler this result s) = settled s @ [(resolve callback, result)])"
  by (simp add: messageHandler_def Let_def split: option.splits)

text \<open>
  C2: the shared listener is the \<open>messageHandler\<close> of the client that installed it
  (\<open>this.messageHandler.bind(this)\<close>), so it looks the \<open>messageId\<close> up in the registry of
  that client only. A message never settles or removes a pending call of another client:
  such a call stays pending until its timer expires.
\<close>

theorem reply_reaches_installing_client_only:
  assumes "listeners s = [f]" "this \<noteq> f"
  shows "callbacks_of (deliver result s) this = callbacks_of s this
         \<and> (settled (deliver result s) = settled s
             \<or> (\<exists>callback. map_of (callbacks_of s f) (str (property result ''messageId'')) = Some callback
                  \<and> settled (deliver result s) = settled s @ [(resolve callback, result)]))"
  using assms messageHandler_settled [of f result s]
  by (simp add: deliver_def messageHandler_other)

theorem reply_reaches_installing_client_only_witness:
  "listeners (run example_uuid
      [New \<lparr>timeout = None\<rparr>, New \<lparr>timeout = None\<rparr>, Send 1 ''getLanguage'' JUndefined]
      (initial True)) = [0]
   \<and> callbacks_of (run example_uuid
      [New \<lparr>timeout = None\<rparr>, New \<lparr>timeout = None\<rparr>, Send 1 ''getLanguage'' JUndefined]
      (initial True)) 1 = [(''xx'', \<lparr>resolve = 0, timeoutId = Some 1\<rparr>)]
   \<and> callbacks_of (deliver (JObj [(''code'', JNum 200), (''cmd'', JStr ''getLanguage''),
                              (''messageId'', JStr ''xx''), (''data'', JStr ''en'')])
        (run example_uuid
          [New \<lparr>timeout = None\<rparr>, New \<lparr>timeout = None\<rparr>, Send 1 ''getLanguage'' JUndefined]
          (initial True))) 1 = [(''xx'', \<lparr>resolve = 0, timeoutId = Some 1\<rparr>)]
   \<and> settled (deliver (JObj [(''code'', JNum 200), (''cmd'', JStr ''getLanguage''),
                              (''messageId'', JStr ''xx''), (''data'', JStr ''en'')])
        (run example_uuid
          [New \<lparr>timeout = None\<rparr>, New \<lparr>timeout = None\<rparr>, Send 1 ''getLanguage'' JUndefined]
          (initial True))) = []
   \<and> settled (run example_uuid
        [New \<lparr>timeout = None\<rparr>, New \<lparr>timeout = None\<rparr>, Send 1 ''getLanguage'' JUndefined,
         Message (JObj [(''code'', JNum 200), (''cmd'', JStr ''getLanguage''),
                        (''messageId'', JStr ''xx''), (''data'', JStr ''en'')]),
         Expire 1]
        (initial True)) = [(0, JObj [(''code'', JNum 30011), (''messageId'', JStr ''xx'')])]"
proof -
  let ?evs = "[New \<lparr>timeout = None\<rparr>, New \<lparr>timeout = None\<rparr>, Send 1 ''getLanguage'' JUndefined]"
  let ?s = "run example_uuid ?evs (initial True)"
  let ?reply = "JObj [(''code'', JNum 200), (''cmd'', JStr ''getLanguage''),
                      (''messageId'', JStr ''xx''), (''data'', JStr ''en'')]"
  have s: "?s = \<lparr>instanceCount = 2, listenerFn = Some 0,
      instances = [\<lparr>defaultTimeout = 30000, messageCallbacks = []\<rparr>,
                   \<lparr>defaultTimeout = 30000,
                    messageCallbacks = [(''xx'', \<lparr>resolve = 0, timeoutId = Some 1\<rparr>)]\<rparr>],
      listeners = [0],
      timers = [(1, \<lparr>timer_this = 1, timer_messageId = ''xx'', timer_cmd = ''getLanguage'',
                     timer_delay = 30000\<rparr>)],
      timerCount = 1, parent = True,
      posted = [JObj [(''cmd'', JStr ''getLanguage''), (''messageId'', JStr ''xx''),
                      (''data'', JObj [])]],
      minted = 2, promises = 1, settled = []\<rparr>"
    by (simp add: run_def constructor_def initial_def Let_def sendMessage_def commandMap_def
        messageId_or_fresh_def generateUniqueMessageId_def returned_def getLanguage_def
        private_sendMessage_def new_promise_def postMessage_def set_callbacks_def callbacks_of_def
        setTimeout_def assign_def example_uuid_def)
  have l: "listeners ?s = [0]" unfolding s by simp
  have c1: "callbacks_of ?s 1 = [(''xx'', \<lparr>resolve = 0, timeoutId = Some 1\<rparr>)]"
    unfolding s by (simp add: callbacks_of_def)
  have d: "deliver ?reply ?s = ?s"
    unfolding s by (simp add: deliver_def messageHandler_def callbacks_of_def Let_def)
  have "callbacks_of (deliver ?reply ?s) 1 = callbacks_of ?s 1"
    using reply_reaches_installing_client_only [OF l, of 1 ?reply] by simp
  then have c2: "callbacks_of (deliver ?reply ?s) 1 = [(''xx'', \<lparr>resolve = 0, timeoutId = Some 1\<rparr>)]"
    by (simp only: c1)
  have c3: "settled (deliver ?reply ?s) = []" unfolding d unfolding s by simp
  have e: "settled (expire 1 ?s) = [(0, JObj [(''code'', JNum 30011), (''messageId'', JStr ''xx'')])]"
    unfolding s
    by (simp add: expire_def handleTimeout_def callbacks_of_def cleanupCallback_def Let_def
        clear_if_set_def clearTimeout_def set_callbacks_def call_resolve_def)
  have "run example_uuid
        [New \<lparr>timeout = None\<rparr>, New \<lparr>timeout = None\<rparr>, Send 1 ''getLanguage'' JUndefined,
         Message ?reply, Expire 1] (initial True) = expire 1 (deliver ?reply ?s)"
    by (simp add: run_def)
  then have c4: "settled (run example_uuid
        [New \<lparr>timeout = None\<rparr>, New \<lparr>timeout = None\<rparr>, Send 1 ''getLanguage'' JUndefined,
         Message ?reply, Expire 1] (initial True)) =
        [(0, JObj [(''code'', JNum 30011), (''messageId'', JStr ''xx'')])]"
    by (simp only: d e)
  show ?thesis by (intro conjI l c1 c2 c3 c4)
qed

subsection \<open>Teardown\<close>

lemma destroy_callback_eq:
  "destroy_callback cbs s k =
     (case map_of cbs k of
        None \<Rightarrow> s
      | Some callback \<Rightarrow>
          clear_if_set (timeoutId callback)
            (call_resolve (resolve callback) (destroyed_response k) s))"
  by (simp add: destroy_callback_def destroyed_response_def Let_def split: option.splits)

lemma delete_as_filter: "AList.delete h ts = filter (\<lambda>p. fst p \<noteq> h) ts"
  by (induction ts) auto

lemma destroy_callback_parts:
  "settled (destroy_callback cbs s k) = settled s @ resolved cbs [k]"
  "timers (destroy_callback cbs s k) = filter (\<lambda>p. fst p \<notin> set (cleared cbs [k])) (timers s)"
  "instances (destroy_callback cbs s k) = instances s"
  "promises (destroy_callback cbs s k) = promises s"
  by (simp_all add: destroy_callback_eq clear_if_set_def clearTimeout_def call_resolve_def
      delete_as_filter split: option.splits)

lemma resolved_append: "resolved cbs (ks @ ks') = resolved cbs ks @ resolved cbs ks'"
  by (induction ks) (simp_all split: option.splits)

lemma cleared_append: "cleared cbs (ks @ ks') = cleared cbs ks @ cleared cbs ks'"
  by (induction ks) (simp_all split: option.splits)

lemma destroy_fold_parts:
  "settled (foldl (destroy_callback cbs) s ks) = settled s @ resolved cbs ks
   \<and> timers (foldl (destroy_callback cbs) s ks) =
       filter (\<lambda>p. fst p \<notin> set (cleared cbs ks)) (timers s)
   \<and> instances (foldl (destroy_callback cbs) s ks) = instances s
   \<and> promises (foldl (destroy_callback cbs) s ks) = promises s"
proof (induction ks rule: rev_induct)
  case Nil
  then show ?case by simp
next
  case (snoc k ks)
  have f: "filter (\<lambda>x. fst x \<notin> set (cleared cbs ks) \<and> fst x \<notin> set (cleared cbs [k])) ts =
           filter (\<lambda>p. fst p \<notin> set (cleared cbs (ks @ [k]))) ts" for ts :: "(nat \<times> timer) list"
    unfolding cleared_append by (induction ts) auto
  show ?case
    using snoc by (simp add: destroy_callback_parts resolved_append f del: resolved.simps cleared.simps)
qed

lemma resolved_entries:
  assumes "distinct (map fst cbs)"
  shows "set xs \<subseteq> set cbs \<Longrightarrow>
         resolved cbs (map fst xs) = map (\<lambda>(k, callback). (resolve callback, destroyed_response k)) xs"
proof (induction xs)
  case Nil
  then show ?case by simp
next
  case (Cons x xs)
  obtain k cb where x: "x = (k, cb)" by (cases x)
  have "map_of cbs k = Some cb" using Cons.prems assms by (simp add: x)
  then show ?case using Cons by (simp add: x)
qed

lemma cleared_entry:
  assumes "map_of cbs k = Some callback" "timeoutId callback = Some h" "h \<noteq> 0"
  shows "k \<in> set ks \<Longrightarrow> h \<in> set (cleared cbs ks)"
  using assms by (induction ks) (auto split: option.splits)

lemma destroy_parts:
  "settled (destroy this s) =
     settled s @ resolved (callbacks_of s this) (map fst (callbacks_of s this))"
  "timers (destroy this s) =
     filter (\<lambda>p. fst p \<notin> set (cleared (callbacks_of s this) (map fst (callbacks_of s this))))
       (timers s)"
  "promises (destroy this s) = promises s"
  "this < length (instances s) \<Longrightarrow>
   callbacks_of (destroy this s) i = (if i = this then [] else callbacks_of s i)"
proof -
  define s1 where "s1 = s\<lparr>instanceCount := instanceCount s - 1\<rparr>"
  define s2 where "s2 = (case listenerFn s1 of
                 Some f \<Rightarrow> if instanceCount s1 = 0
                           then s1\<lparr>listeners := remove1 f (listeners s1), listenerFn := None\<rparr>
                           else s1
               | None \<Rightarrow> s1)"
  define s3 where "s3 = foldl (destroy_callback (callbacks_of s2 this)) s2 (map fst (callbacks_of s2 this))"
  have d: "destroy this s = set_callbacks this [] s3"
    unfolding destroy_def Let_def s1_def s2_def s3_def by (rule refl)
  have s2: "instances s2 = instances s" "settled s2 = settled s" "timers s2 = timers s"
    "promises s2 = promises s"
    by (simp_all add: s2_def s1_def split: option.splits)
  then have c: "callbacks_of s2 this = callbacks_of s this" by (simp add: callbacks_of_def)
  note f = destroy_fold_parts [of "callbacks_of s this" s2 "map fst (callbacks_of s this)"]
  show "settled (destroy this s) =
     settled s @ resolved (callbacks_of s this) (map fst (callbacks_of s this))"
    using f by (simp add: d s3_def c s2)
  show "timers (destroy this s) =
     filter (\<lambda>p. fst p \<notin> set (cleared (callbacks_of s this) (map fst (callbacks_of s this))))
       (timers s)"
    using f by (simp add: d s3_def c s2 set_callbacks_def)
  show "promises (destroy this s) = promises s"
    using f by (simp add: d s3_def c s2 set_callbacks_def)
  show "callbacks_of (destroy this s) i = (if i = this then [] else callbacks_of s i)"
    if "this < length (instances s)"
    using f that by (simp add: d s3_def c s2 set_callbacks_def callbacks_of_def nth_list_update)
qed

text \<open>
  C4: \<open>destroy\<close> calls the \<open>resolve\<close> function of every pending call of the client with the
  code 30011 (timeout), clears every timer whose handle is stored in such a call, and
  leaves the registry of the client empty and those of the other clients as they were; the
  responses have no \<open>message\<close>, since \<open>handleError\<close> does not store the message
  \<open>Connection destroyed\<close> that it is given.
\<close>

theorem destroy_settles_pending_calls:
  assumes "this < length (instances s)" "distinct (map fst (callbacks_of s this))"
  shows "callbacks_of (destroy this s) this = []
         \<and> settled (destroy this s) =
             settled s @ map (\<lambda>(messageId, callback).
                               (resolve callback,
                                JObj [(''code'', JNum 30011), (''messageId'', JStr messageId)]))
                          (callbacks_of s this)
         \<and> (\<forall>(messageId, callback) \<in> set (callbacks_of s this).
               \<forall>h. timeoutId callback = Some h \<and> h \<noteq> 0 \<longrightarrow> map_of (timers (destroy this s)) h = None)
         \<and> (\<forall>i. i \<noteq> this \<longrightarrow> callbacks_of (destroy this s) i = callbacks_of s i)
         \<and> (\<forall>messageId. property (JObj [(''code'', JNum 30011), (''messageId'', JStr messageId)])
                            ''message'' = JUndefined)"
proof (intro conjI ballI allI impI)
  show "callbacks_of (destroy this s) this = []" using assms(1) by (simp add: destroy_parts)
next
  have "resolved (callbacks_of s this) (map fst (callbacks_of s this)) =
        map (\<lambda>(k, callback). (resolve callback, destroyed_response k)) (callbacks_of s this)"
    using assms(2) by (rule resolved_entries) simp
  then show "settled (destroy this s) =
             settled s @ map (\<lambda>(messageId, callback).
                               (resolve callback,
                                JObj [(''code'', JNum 30011), (''messageId'', JStr messageId)]))
                          (callbacks_of s this)"
    by (simp add: destroy_parts destroyed_response_def)
next
  fix x assume x: "x \<in> set (callbacks_of s this)"
  show "case x of (messageId, callback) \<Rightarrow>
          \<forall>h. timeoutId callback = Some h \<and> h \<noteq> 0 \<longrightarrow> map_of (timers (destroy this s)) h = None"
  proof (cases x)
    case (Pair k cb)
    have m: "map_of (callbacks_of s this) k = Some cb" using x assms(2) by (simp add: Pair)
    have k: "k \<in> set (map fst (callbacks_of s this))" using x by (force simp: Pair)
    show ?thesis
      unfolding Pair prod.case
    proof (intro allI impI)
      fix h assume "timeoutId cb = Some h \<and> h \<noteq> 0"
      then have "h \<in> set (cleared (callbacks_of s this) (map fst (callbacks_of s this)))"
        using cleared_entry [OF m _ _ k] by blast
      then show "map_of (timers (destroy this s)) h = None"
        by (auto simp: destroy_parts map_of_eq_None_iff)
    qed
  qed
next
  fix i assume "i \<noteq> this"
  then show "callbacks_of (destroy this s) i = callbacks_of s i"
    using assms(1) by (simp add: destroy_parts)
next
  fix messageId
  show "property (JObj [(''code'', JNum 30011), (''messageId'', JStr messageId)]) ''message'' = JUndefined"
    by simp
qed

theorem destroy_settles_pending_calls_witness:
  "settled (run example_uuid
      [New \<lparr>timeout = None\<rparr>, New \<lparr>timeout = None\<rparr>, Send 0 ''getLanguage'' JUndefined,
       Send 0 ''scanQRCode'' JUndefined, Destroy 0] (initial True)) =
     [(0, JObj [(''code'', JNum 30011), (''messageId'', JStr ''xx'')]),
      (1, JObj [(''code'', JNum 30011), (''messageId'', JStr ''xxxx'')])]
   \<and> callbacks_of (run example_uuid
      [New \<lparr>timeout = None\<rparr>, New \<lparr>timeout = None\<rparr>, Send 0 ''getLanguage'' JUndefined,
       Send 0 ''scanQRCode'' JUndefined, Destroy 0] (initial True)) 0 = []"
proof -
  let ?evs = "[New \<lparr>timeout = None\<rparr>, New \<lparr>timeout = None\<rparr>, Send 0 ''getLanguage'' JUndefined,
       Send 0 ''scanQRCode'' JUndefined]"
  let ?s = "run example_uuid ?evs (initial True)"
  have s: "?s = \<lparr>instanceCount = 2, listenerFn = Some 0,
      instances = [\<lparr>defaultTimeout = 30000,
                    messageCallbacks = [(''xx'', \<lparr>resolve = 0, timeoutId = Some 1\<rparr>),
                                        (''xxxx'', \<lparr>resolve = 1, timeoutId = None\<rparr>)]\<rparr>,
                   \<lparr>defaultTimeout = 30000, messageCallbacks = []\<rparr>],
      listeners = [0],
      timers = [(1, \<lparr>timer_this = 0, timer_messageId = ''xx'', timer_cmd = ''getLanguage'',
                     timer_delay = 30000\<rparr>)],
      timerCount = 1, parent = True,
      posted = [JObj [(''cmd'', JStr ''getLanguage''), (''messageId'', JStr ''xx''),
                      (''data'', JObj [])],
                JObj [(''cmd'', JStr ''scanQRCode''), (''messageId'', JStr ''xxxx''),
                      (''data'', JObj [])]],
      minted = 4, promises = 2, settled = []\<rparr>"
    by (simp add: run_def constructor_def initial_def Let_def sendMessage_def commandMap_def
        messageId_or_fresh_def generateUniqueMessageId_def returned_def getLanguage_def
        scanQRCode_def private_sendMessage_def new_promise_def postMessage_def set_callbacks_def
        callbacks_of_def setTimeout_def assign_def example_uuid_def)
  have h: "0 < length (instances ?s)" "distinct (map fst (callbacks_of ?s 0))"
    unfolding s by (simp_all add: callbacks_of_def)
  have c: "callbacks_of ?s 0 = [(''xx'', \<lparr>resolve = 0, timeoutId = Some 1\<rparr>),
                                (''xxxx'', \<lparr>resolve = 1, timeoutId = None\<rparr>)]"
    "settled ?s = []"
    unfolding s by (simp_all add: callbacks_of_def)
  have r: "run example_uuid
      [New \<lparr>timeout = None\<rparr>, New \<lparr>timeout = None\<rparr>, Send 0 ''getLanguage'' JUndefined,
       Send 0 ''scanQRCode'' JUndefined, Destroy 0] (initial True) = destroy 0 ?s"
    using h(1) by (simp add: run_def)
  show ?thesis
    unfolding r using destroy_settles_pending_calls [OF h] by (simp add: c)
qed

subsection \<open>The parts of the state after each operation\<close>

lemma entries_update [simp]:
  "entries (s\<lparr>timers := ts\<rparr>) = entries s"
  "entries (s\<lparr>settled := vs\<rparr>) = entries s"
  "entries (s\<lparr>promises := np\<rparr>) = entries s"
  "entries (s\<lparr>minted := nm\<rparr>) = entries s"
  "entries (s\<lparr>timerCount := tc\<rparr>) = entries s"
  "entries (s\<lparr>posted := ms\<rparr>) = entries s"
  "entries (s\<lparr>instanceCount := ic\<rparr>) = entries s"
  "entries (s\<lparr>listenerFn := fn\<rparr>) = entries s"
  "entries (s\<lparr>listeners := ls\<rparr>) = entries s"
  by (simp_all add: entries_def)

lemma entries_simple [simp]:
  "entries (clearTimeout h s) = entries s"
  "entries (clear_if_set tid s) = entries s"
  "entries (call_resolve p v s) = entries s"
  "entries (postMessage message s) = entries s"
  "entries (mint n s) = entries s"
  by (simp_all add: clearTimeout_def clear_if_set_def call_resolve_def postMessage_def mint_def
      split: option.splits)

lemma length_set_callbacks [simp]:
  "length (instances (set_callbacks this cbs s)) = length (instances s)"
  by (simp add: set_callbacks_def)

lemma length_simple [simp]:
  "length (instances (clearTimeout h s)) = length (instances s)"
  "length (instances (clear_if_set tid s)) = length (instances s)"
  "length (instances (call_resolve p v s)) = length (instances s)"
  "length (instances (postMessage message s)) = length (instances s)"
  "length (instances (mint n s)) = length (instances s)"
  by (simp_all add: clearTimeout_def clear_if_set_def call_resolve_def postMessage_def mint_def
      split: option.splits)

lemma entries_set_callbacks:
  "this < length (instances s) \<Longrightarrow>
   entries (set_callbacks this cbs s) =
     {e \<in> entries s. fst e \<noteq> this} \<union> {(this, k, callback) |k callback. map_of cbs k = Some callback}"
  by (auto simp: entries_def callbacks_of_set_callbacks split: if_splits)

lemma promises_simple [simp]:
  "promises (clearTimeout h s) = promises s"
  "promises (clear_if_set tid s) = promises s"
  "promises (call_resolve p v s) = promises s"
  "promises (postMessage message s) = promises s"
  "promises (mint n s) = promises s"
  "promises (set_callbacks this cbs s) = promises s"
  by (simp_all add: clearTimeout_def clear_if_set_def call_resolve_def postMessage_def mint_def
      set_callbacks_def split: option.splits)

lemma settled_more [simp]:
  "settled (postMessage message s) = settled s"
  "settled (mint n s) = settled s"
  by (simp_all add: postMessage_def mint_def)

lemma listeners_simple [simp]:
  "listeners (clearTimeout h s) = listeners s"
  "listeners (clear_if_set tid s) = listeners s"
  "listeners (call_resolve p v s) = listeners s"
  "listeners (postMessage message s) = listeners s"
  "listeners (mint n s) = listeners s"
  "listeners (set_callbacks this cbs s) = listeners s"
  by (simp_all add: clearTimeout_def clear_if_set_def call_resolve_def postMessage_def mint_def
      set_callbacks_def split: option.splits)

lemma timers_simple [simp]:
  "timers (clearTimeout h s) = AList.delete h (timers s)"
  "timers (call_resolve p v s) = timers s"
  "timers (postMessage message s) = timers s"
  "timers (mint n s) = timers s"
  "timers (set_callbacks this cbs s) = timers s"
  by (simp_all add: clearTimeout_def call_resolve_def postMessage_def mint_def set_callbacks_def)

lemma timers_clear_if_set: "set (timers (clear_if_set tid s)) \<subseteq> set (timers s)"
  by (auto simp: clear_if_set_def delete_as_filter split: option.splits)

lemma timer_cleared:
  "tid = Some h \<Longrightarrow> h \<noteq> 0 \<Longrightarrow> map_of (timers (clear_if_set tid s)) h = None"
  by (simp add: clear_if_set_def delete_conv')

subsection \<open>Settling a pending call\<close>

lemma cleanupCallback_found:
  "map_of (callbacks_of s this) k = Some callback \<Longrightarrow> k \<noteq> [] \<Longrightarrow>
   cleanupCallback this k s =
     set_callbacks this (AList.delete k (callbacks_of s this)) (clear_if_set (timeoutId callback) s)"
  by (simp add: cleanupCallback_def Let_def)

lemma settle_commute:
  "settle this k callback v s =
     set_callbacks this (AList.delete k (callbacks_of s this))
       (clear_if_set (timeoutId callback) (call_resolve (resolve callback) v s))"
  by (simp add: settle_def set_callbacks_def clear_if_set_def clearTimeout_def call_resolve_def
      callbacks_of_def split: option.splits)

lemma handleTimeout_found:
  assumes "map_of (callbacks_of s this) k = Some callback" "k \<noteq> []"
  shows "handleTimeout this k cmd s =
           settle this k callback (JObj [(''code'', JNum 30011), (''messageId'', JStr k)]) s"
proof -
  let ?s = "call_resolve (resolve callback) (JObj [(''code'', JNum 30011), (''messageId'', JStr k)]) s"
  have "map_of (callbacks_of ?s this) k = Some callback" using assms(1) by simp
  then have "cleanupCallback this k ?s =
      set_callbacks this (AList.delete k (callbacks_of ?s this)) (clear_if_set (timeoutId callback) ?s)"
    using assms(2) by (rule cleanupCallback_found)
  then show ?thesis
    using assms(1) by (simp add: handleTimeout_def Let_def settle_commute)
qed

lemma handleTimeout_absent:
  "map_of (callbacks_of s this) k = None \<Longrightarrow> handleTimeout this k cmd s = s"
  by (simp add: handleTimeout_def)

lemma messageHandler_found:
  assumes "truthy result" "typeof result = ''object''" "property result ''messageId'' = JStr k"
    and "map_of (callbacks_of s this) k = Some callback" "k \<noteq> []"
  shows "messageHandler this result s = settle this k callback result s"
  using assms by (simp add: messageHandler_def Let_def cleanupCallback_found settle_def)

lemma messageHandler_absent:
  "property result ''messageId'' = JStr k \<Longrightarrow> map_of (callbacks_of s this) k = None \<Longrightarrow>
   messageHandler this result s = s"
  by (simp add: messageHandler_def Let_def)

lemma messageHandler_cases:
  "messageHandler this result s = s
   \<or> (\<exists>k callback. map_of (callbacks_of s this) k = Some callback
        \<and> (k \<noteq> [] \<longrightarrow> messageHandler this result s = settle this k callback result s))"
proof (cases "truthy result \<and> typeof result = ''object''
              \<and> typeof (property result ''messageId'') = ''string''")
  case False
  then show ?thesis by (auto simp: messageHandler_def)
next
  case True
  then obtain k where k: "property result ''messageId'' = JStr k"
    by (cases "property result ''messageId''") auto
  show ?thesis
  proof (cases "map_of (callbacks_of s this) k")
    case None
    then show ?thesis using k by (simp add: messageHandler_absent)
  next
    case (Some callback)
    have "k \<noteq> [] \<longrightarrow> messageHandler this result s = settle this k callback result s"
      using True k Some by (simp add: messageHandler_found)
    then show ?thesis using Some by blast
  qed
qed

lemma settle_parts:
  "settled (settle this k callback v s) = settled s @ [(resolve callback, v)]"
  "promises (settle this k callback v s) = promises s"
  "listeners (settle this k callback v s) = listeners s"
  "length (instances (settle this k callback v s)) = length (instances s)"
  "set (timers (settle this k callback v s)) \<subseteq> set (timers s)"
  "timeoutId callback = Some h \<Longrightarrow> h \<noteq> 0 \<Longrightarrow> map_of (timers (settle this k callback v s)) h = None"
  "this < length (instances s) \<Longrightarrow>
   callbacks_of (settle this k callback v s) i =
     (if i = this then AList.delete k (callbacks_of s this) else callbacks_of s i)"
  by (simp_all add: settle_def timers_clear_if_set timer_cleared callbacks_of_set_callbacks)

lemma settle_entries:
  "this < length (instances s) \<Longrightarrow>
   entries (settle this k callback v s) = entries s - {(this, k, cb) |cb. True}"
  by (simp add: settle_def entries_set_callbacks) (auto simp: entries_def delete_conv')

subsection \<open>What every run keeps true\<close>

lemma promises_okI:
  assumes "\<And>i k cb. (i, k, cb) \<in> entries s \<Longrightarrow> resolve cb < promises s"
    "\<And>i k cb. (i, k, cb) \<in> entries s \<Longrightarrow> resolve cb \<notin> fst ` set (settled s)"
    "\<And>i k cb j k' cb'. (i, k, cb) \<in> entries s \<Longrightarrow> (j, k', cb') \<in> entries s \<Longrightarrow>
       resolve cb = resolve cb' \<Longrightarrow> i = j \<and> k = k'"
    "\<And>p. p \<in> fst ` set (settled s) \<Longrightarrow> p < promises s"
    "distinct (map fst (settled s))"
  shows "promises_ok s"
  unfolding promises_ok_def
  apply (intro conjI allI impI ballI)
      apply (erule assms(1))
     apply (erule assms(2))
    apply (erule (2) assms(3) [THEN conjunct1])
   apply (erule (2) assms(3) [THEN conjunct2])
   apply (erule assms(4))
  apply (rule assms(5))
  done

lemma promises_ok_created:
  "promises_ok s \<Longrightarrow> (i, k, cb) \<in> entries s \<Longrightarrow> resolve cb < promises s"
  unfolding promises_ok_def by (elim conjE allE [of _ i] allE [of _ k] allE [of _ cb]) simp

lemma promises_ok_unsettled:
  "promises_ok s \<Longrightarrow> (i, k, cb) \<in> entries s \<Longrightarrow> resolve cb \<notin> fst ` set (settled s)"
  unfolding promises_ok_def by (elim conjE allE [of _ i] allE [of _ k] allE [of _ cb]) simp

lemma promises_ok_unique:
  assumes "promises_ok s" "(i, k, cb) \<in> entries s" "(j, k', cb') \<in> entries s"
    "resolve cb = resolve cb'"
  shows "i = j \<and> k = k'"
proof -
  have "\<forall>i k callback j k' callback'.
          (i, k, callback) \<in> entries s \<longrightarrow> (j, k', callback') \<in> entries s \<longrightarrow>
          resolve callback = resolve callback' \<longrightarrow> i = j \<and> k = k'"
    using assms(1) unfolding promises_ok_def by (elim conjE)
  then have "(i, k, cb) \<in> entries s \<longrightarrow> (j, k', cb') \<in> entries s \<longrightarrow>
          resolve cb = resolve cb' \<longrightarrow> i = j \<and> k = k'"
    by (elim allE)
  then show ?thesis using assms(2,3,4) by simp
qed

lemma promises_ok_log:
  "promises_ok s \<Longrightarrow> p \<in> fst ` set (settled s) \<Longrightarrow> p < promises s"
  unfolding promises_ok_def by (elim conjE) (erule (1) bspec)

lemma promises_ok_distinct: "promises_ok s \<Longrightarrow> distinct (map fst (settled s))"
  unfolding promises_ok_def by (elim conjE)

lemma promises_ok_subset:
  assumes "promises_ok s" "entries s' \<subseteq> entries s" "promises s' = promises s"
    "settled s' = settled s"
  shows "promises_ok s'"
proof (rule promises_okI)
  fix i k cb assume "(i, k, cb) \<in> entries s'"
  then have e: "(i, k, cb) \<in> entries s" using assms(2) by (rule rev_subsetD)
  show "resolve cb < promises s'" using promises_ok_created [OF assms(1) e] by (simp add: assms(3))
  show "resolve cb \<notin> fst ` set (settled s')"
    using promises_ok_unsettled [OF assms(1) e] by (simp add: assms(4))
next
  fix i k cb j k' cb'
  assume a: "(i, k, cb) \<in> entries s'" and b: "(j, k', cb') \<in> entries s'"
    and e: "resolve cb = resolve cb'"
  have "(i, k, cb) \<in> entries s" using a assms(2) by (rule rev_subsetD)
  moreover have "(j, k', cb') \<in> entries s" using b assms(2) by (rule rev_subsetD)
  ultimately show "i = j \<and> k = k'" using e by (rule promises_ok_unique [OF assms(1)])
next
  fix p assume "p \<in> fst ` set (settled s')"
  then have "p \<in> fst ` set (settled s)" by (simp add: assms(4))
  then have "p < promises s" by (rule promises_ok_log [OF assms(1)])
  then show "p < promises s'" by (simp add: assms(3))
next
  show "distinct (map fst (settled s'))" using promises_ok_distinct [OF assms(1)] by (simp add: assms(4))
qed

lemma promises_ok_settle:
  assumes "promises_ok s" "(i, k, callback) \<in> entries s" "entries s' \<subseteq> entries s"
    "\<And>cb. (i, k, cb) \<notin> entries s'" "promises s' = promises s"
    "settled s' = settled s @ [(resolve callback, v)]"
  shows "promises_ok s'"
proof (rule promises_okI)
  fix j k' cb assume e': "(j, k', cb) \<in> entries s'"
  then have e: "(j, k', cb) \<in> entries s" using assms(3) by (rule rev_subsetD)
  have other: "resolve cb \<noteq> resolve callback"
  proof
    assume "resolve cb = resolve callback"
    then have "j = i \<and> k' = k" by (rule promises_ok_unique [OF assms(1) e assms(2)])
    then show False using e' assms(4) [of cb] by simp
  qed
  show "resolve cb < promises s'" using promises_ok_created [OF assms(1) e] by (simp add: assms(5))
  show "resolve cb \<notin> fst ` set (settled s')"
    using promises_ok_unsettled [OF assms(1) e] other by (simp add: assms(6))
next
  fix i' k1 c1 j k2 c2
  assume a: "(i', k1, c1) \<in> entries s'" and b: "(j, k2, c2) \<in> entries s'"
    and e: "resolve c1 = resolve c2"
  have "(i', k1, c1) \<in> entries s" using a assms(3) by (rule rev_subsetD)
  moreover have "(j, k2, c2) \<in> entries s" using b assms(3) by (rule rev_subsetD)
  ultimately show "i' = j \<and> k1 = k2" using e by (rule promises_ok_unique [OF assms(1)])
next
  fix p assume "p \<in> fst ` set (settled s')"
  then have "p \<in> fst ` set (settled s) \<or> p = resolve callback" by (auto simp: assms(6))
  then show "p < promises s'"
  proof
    assume "p \<in> fst ` set (settled s)"
    then have "p < promises s" by (rule promises_ok_log [OF assms(1)])
    then show ?thesis by (simp add: assms(5))
  next
    assume "p = resolve callback"
    then show ?thesis using promises_ok_created [OF assms(1,2)] by (simp add: assms(5))
  qed
next
  show "distinct (map fst (settled s'))"
    using promises_ok_distinct [OF assms(1)] promises_ok_unsettled [OF assms(1,2)]
    by (simp add: assms(6))
qed

lemma promises_ok_fresh:
  assumes "promises_ok s" "entries s' \<subseteq> entries s" "promises s' = Suc (promises s)"
    "settled s' = settled s @ [(promises s, v)]"
  shows "promises_ok s'"
proof (rule promises_okI)
  fix j k' cb assume "(j, k', cb) \<in> entries s'"
  then have e: "(j, k', cb) \<in> entries s" using assms(2) by (rule rev_subsetD)
  show "resolve cb < promises s'" using promises_ok_created [OF assms(1) e] by (simp add: assms(3))
  show "resolve cb \<notin> fst ` set (settled s')"
    using promises_ok_unsettled [OF assms(1) e] promises_ok_created [OF assms(1) e]
    by (simp add: assms(4))
next
  fix i' k1 c1 j k2 c2
  assume a: "(i', k1, c1) \<in> entries s'" and b: "(j, k2, c2) \<in> entries s'"
    and e: "resolve c1 = resolve c2"
  have "(i', k1, c1) \<in> entries s" using a assms(2) by (rule rev_subsetD)
  moreover have "(j, k2, c2) \<in> entries s" using b assms(2) by (rule rev_subsetD)
  ultimately show "i' = j \<and> k1 = k2" using e by (rule promises_ok_unique [OF assms(1)])
next
  fix p assume "p \<in> fst ` set (settled s')"
  then have "p \<in> fst ` set (settled s) \<or> p = promises s" by (auto simp: assms(4))
  then show "p < promises s'"
  proof
    assume "p \<in> fst ` set (settled s)"
    then have "p < promises s" by (rule promises_ok_log [OF assms(1)])
    then show ?thesis by (simp add: assms(3))
  next
    assume "p = promises s"
    then show ?thesis by (simp add: assms(3))
  qed
next
  have "promises s \<notin> fst ` set (settled s)"
  proof
    assume "promises s \<in> fst ` set (settled s)"
    then have "promises s < promises s" by (rule promises_ok_log [OF assms(1)])
    then show False by simp
  qed
  then show "distinct (map fst (settled s'))"
    using promises_ok_distinct [OF assms(1)] by (simp add: assms(4))
qed

lemma promises_ok_register:
  assumes "promises_ok s" "entries s' \<subseteq> insert (i, k, callback) (entries s)"
    "resolve callback = promises s" "promises s' = Suc (promises s)" "settled s' = settled s"
  shows "promises_ok s'"
proof (rule promises_okI)
  have fresh: "promises s \<notin> fst ` set (settled s)"
  proof
    assume "promises s \<in> fst ` set (settled s)"
    then have "promises s < promises s" by (rule promises_ok_log [OF assms(1)])
    then show False by simp
  qed
  fix j k' cb assume "(j, k', cb) \<in> entries s'"
  then have "(j, k', cb) = (i, k, callback) \<or> (j, k', cb) \<in> entries s"
    using assms(2) by auto
  then have "resolve cb < promises s' \<and> resolve cb \<notin> fst ` set (settled s')"
  proof
    assume "(j, k', cb) = (i, k, callback)"
    then show ?thesis using fresh by (simp add: assms(3,4,5))
  next
    assume e: "(j, k', cb) \<in> entries s"
    show ?thesis
      using promises_ok_unsettled [OF assms(1) e] promises_ok_created [OF assms(1) e]
      by (simp add: assms(4,5))
  qed
  then show "resolve cb < promises s'" "resolve cb \<notin> fst ` set (settled s')" by simp_all
next
  fix i' k1 c1 j k2 c2
  assume a: "(i', k1, c1) \<in> entries s'" and b: "(j, k2, c2) \<in> entries s'"
    and e: "resolve c1 = resolve c2"
  from a have a': "(i', k1, c1) = (i, k, callback) \<or> (i', k1, c1) \<in> entries s"
    using assms(2) by auto
  from b have b': "(j, k2, c2) = (i, k, callback) \<or> (j, k2, c2) \<in> entries s"
    using assms(2) by auto
  from a' b' show "i' = j \<and> k1 = k2"
  proof (elim disjE)
    assume "(i', k1, c1) = (i, k, callback)" "(j, k2, c2) = (i, k, callback)"
    then show ?thesis by simp
  next
    assume x: "(i', k1, c1) = (i, k, callback)" and y: "(j, k2, c2) \<in> entries s"
    have "resolve c2 < promises s" by (rule promises_ok_created [OF assms(1) y])
    then show ?thesis using x e assms(3) by simp
  next
    assume x: "(i', k1, c1) \<in> entries s" and y: "(j, k2, c2) = (i, k, callback)"
    have "resolve c1 < promises s" by (rule promises_ok_created [OF assms(1) x])
    then show ?thesis using y e assms(3) by simp
  next
    assume "(i', k1, c1) \<in> entries s" "(j, k2, c2) \<in> entries s"
    then show ?thesis using e by (rule promises_ok_unique [OF assms(1)])
  qed
next
  fix p assume "p \<in> fst ` set (settled s')"
  then have "p \<in> fst ` set (settled s)" by (simp add: assms(5))
  then have "p < promises s" by (rule promises_ok_log [OF assms(1)])
  then show "p < promises s'" by (simp add: assms(4))
next
  show "distinct (map fst (settled s'))"
    using promises_ok_distinct [OF assms(1)] by (simp add: assms(5))
qed

lemma registry_ok_same:
  assumes "registry_ok s" "length (instances s') = length (instances s)"
    "\<And>i. i < length (instances s) \<Longrightarrow> callbacks_of s' i = callbacks_of s i"
  shows "registry_ok s'"
proof -
  have "entries s' = entries s" using assms(2,3) by (auto simp: entries_def)
  then show ?thesis using assms unfolding registry_ok_def by simp
qed

lemma registry_ok_change:
  assumes "registry_ok s" "length (instances s') = length (instances s)"
    "\<And>i. i < length (instances s) \<Longrightarrow> i \<noteq> this \<Longrightarrow> callbacks_of s' i = callbacks_of s i"
    "distinct (map fst (callbacks_of s' this))"
    "\<And>k cb. map_of (callbacks_of s' this) k = Some cb \<Longrightarrow> k \<noteq> [] \<and> timeoutId cb \<noteq> Some 0"
  shows "registry_ok s'"
  unfolding registry_ok_def
proof (intro conjI allI impI)
  fix i assume "i < length (instances s')"
  then show "distinct (map fst (callbacks_of s' i))"
    using assms unfolding registry_ok_def by (cases "i = this") auto
next
  fix i k cb assume e: "(i, k, cb) \<in> entries s'"
  show "k \<noteq> []" "timeoutId cb \<noteq> Some 0"
  proof -
    have "k \<noteq> [] \<and> timeoutId cb \<noteq> Some 0"
    proof (cases "i = this")
      case True
      then show ?thesis using e assms(5) [of k cb] by (simp add: entries_def)
    next
      case False
      then have "(i, k, cb) \<in> entries s"
        using e assms(2) assms(3) [of i] by (simp add: entries_def)
      then show ?thesis using assms(1) unfolding registry_ok_def by blast
    qed
    then show "k \<noteq> []" "timeoutId cb \<noteq> Some 0" by simp_all
  qed
qed

lemma refs_ok_subset:
  assumes "refs_ok s" "length (instances s') = length (instances s)"
    "listeners s' = listeners s" "set (timers s') \<subseteq> set (timers s)"
  shows "refs_ok s'"
  using assms unfolding refs_ok_def by auto

lemma inv_initial: "inv (initial b)"
  by (simp add: inv_def registry_ok_def promises_ok_def refs_ok_def entries_def initial_def)

lemma inv_mint: "inv s \<Longrightarrow> inv (mint n s)"
  unfolding inv_def
  by (auto intro: registry_ok_same promises_ok_subset refs_ok_subset simp: mint_def callbacks_of_def)

lemma inv_settle:
  assumes "inv s" "this < length (instances s)" "map_of (callbacks_of s this) k = Some callback"
  shows "inv (settle this k callback v s)"
proof -
  let ?s = "settle this k callback v s"
  have e: "(this, k, callback) \<in> entries s" using assms(2,3) by (simp add: entries_def)
  have r: "registry_ok s" and p: "promises_ok s" and f: "refs_ok s"
    using assms(1) by (simp_all add: inv_def)
  have c: "callbacks_of ?s i = (if i = this then AList.delete k (callbacks_of s this) else callbacks_of s i)" for i
    using assms(2) by (rule settle_parts(7))
  have "registry_ok ?s"
  proof (rule registry_ok_change [where this = this and s = s])
    show "registry_ok s" by (rule r)
    show "length (instances ?s) = length (instances s)" by (rule settle_parts(4))
    show "callbacks_of ?s i = callbacks_of s i" if "i \<noteq> this" for i using that by (simp add: c)
    have "distinct (map fst (callbacks_of s this))"
      using r assms(2) unfolding registry_ok_def by blast
    then show "distinct (map fst (callbacks_of ?s this))" by (simp add: c distinct_delete)
    show "k' \<noteq> [] \<and> timeoutId cb \<noteq> Some 0" if "map_of (callbacks_of ?s this) k' = Some cb" for k' cb
    proof -
      have "map_of (callbacks_of s this) k' = Some cb"
        using that by (simp add: c delete_conv' split: if_splits)
      then have "(this, k', cb) \<in> entries s" using assms(2) by (simp add: entries_def)
      then show ?thesis using r unfolding registry_ok_def by blast
    qed
  qed
  moreover have "promises_ok ?s"
  proof (rule promises_ok_settle [OF p e])
    show "entries ?s \<subseteq> entries s" by (simp add: settle_entries [OF assms(2)])
    show "(this, k, cb) \<notin> entries ?s" for cb by (simp add: settle_entries [OF assms(2)])
    show "promises ?s = promises s" by (rule settle_parts(2))
    show "settled ?s = settled s @ [(resolve callback, v)]" by (rule settle_parts(1))
  qed
  moreover have "refs_ok ?s"
  proof (rule refs_ok_subset [OF f])
    show "length (instances ?s) = length (instances s)" by (rule settle_parts(4))
    show "listeners ?s = listeners s" by (rule settle_parts(3))
    show "set (timers ?s) \<subseteq> set (timers s)" by (rule settle_parts(5))
  qed
  ultimately show ?thesis by (simp add: inv_def)
qed

lemma inv_parts: "inv s \<Longrightarrow> registry_ok s" "inv s \<Longrightarrow> promises_ok s" "inv s \<Longrightarrow> refs_ok s"
  by (simp_all add: inv_def)

lemma registry_ok_distinct:
  "registry_ok s \<Longrightarrow> i < length (instances s) \<Longrightarrow> distinct (map fst (callbacks_of s i))"
  unfolding registry_ok_def by (elim conjE allE [of _ i]) simp

lemma registry_ok_entry:
  "registry_ok s \<Longrightarrow> (i, k, cb) \<in> entries s \<Longrightarrow> k \<noteq> [] \<and> timeoutId cb \<noteq> Some 0"
  unfolding registry_ok_def by (elim conjE allE [of _ i] allE [of _ k] allE [of _ cb]) simp

lemma inv_Promise_resolve:
  assumes "inv s"
  shows "inv (snd (Promise_resolve v s))"
proof -
  let ?s = "snd (Promise_resolve v s)"
  have s: "?s = s\<lparr>promises := Suc (promises s), settled := settled s @ [(promises s, v)]\<rparr>"
    by (simp add: Promise_resolve_def new_promise_def call_resolve_def)
  have "registry_ok ?s"
    using inv_parts(1) [OF assms] by (rule registry_ok_same) (simp_all add: s)
  moreover have "promises_ok ?s"
    using inv_parts(2) [OF assms] by (rule promises_ok_fresh [where v = v]) (simp_all add: s)
  moreover have "refs_ok ?s"
    using inv_parts(3) [OF assms] by (rule refs_ok_subset) (simp_all add: s)
  ultimately show ?thesis by (simp add: inv_def)
qed

lemma inv_remove:
  assumes "inv s" "this < length (instances s)"
  shows "inv (set_callbacks this (AList.delete k (callbacks_of s this)) (clear_if_set tid s))"
proof -
  let ?s = "set_callbacks this (AList.delete k (callbacks_of s this)) (clear_if_set tid s)"
  have c: "callbacks_of ?s i = (if i = this then AList.delete k (callbacks_of s this) else callbacks_of s i)" for i
    using assms(2) by (simp add: callbacks_of_set_callbacks)
  have en: "entries ?s \<subseteq> entries s"
    using assms(2) by (simp add: entries_set_callbacks) (auto simp: entries_def delete_conv')
  have "registry_ok ?s"
  proof (rule registry_ok_change [where this = this and s = s])
    show "registry_ok s" by (rule inv_parts(1) [OF assms(1)])
    show "length (instances ?s) = length (instances s)" by simp
    show "callbacks_of ?s i = callbacks_of s i" if "i \<noteq> this" for i using that by (simp add: c)
    show "distinct (map fst (callbacks_of ?s this))"
      using registry_ok_distinct [OF inv_parts(1) [OF assms(1)] assms(2)]
      by (simp add: c distinct_delete)
    show "k' \<noteq> [] \<and> timeoutId cb \<noteq> Some 0" if "map_of (callbacks_of ?s this) k' = Some cb" for k' cb
    proof -
      have "map_of (callbacks_of s this) k' = Some cb"
        using that by (simp add: c delete_conv' split: if_splits)
      then have "(this, k', cb) \<in> entries s" using assms(2) by (simp add: entries_def)
      then show ?thesis by (rule registry_ok_entry [OF inv_parts(1) [OF assms(1)]])
    qed
  qed
  moreover have "promises_ok ?s"
    using inv_parts(2) [OF assms(1)] en by (rule promises_ok_subset) simp_all
  moreover have "refs_ok ?s"
    using inv_parts(3) [OF assms(1)]
    by (rule refs_ok_subset) (simp_all add: timers_clear_if_set)
  ultimately show ?thesis by (simp add: inv_def)
qed

lemma inv_cleanupCallback:
  assumes "inv s" "this < length (instances s)"
  shows "inv (cleanupCallback this k s)"
proof (cases "map_of (callbacks_of s this) k")
  case None
  then show ?thesis using assms(1) by (simp add: cleanupCallback_absent)
next
  case (Some callback)
  then have "(this, k, callback) \<in> entries s" using assms(2) by (simp add: entries_def)
  then have "k \<noteq> []" using registry_ok_entry [OF inv_parts(1) [OF assms(1)]] by blast
  then show ?thesis
    using Some assms by (simp add: cleanupCallback_found inv_remove)
qed

lemma cleanupCallback_parts:
  "promises (cleanupCallback this k s) = promises s"
  "settled (cleanupCallback this k s) = settled s"
  "length (instances (cleanupCallback this k s)) = length (instances s)"
  "listeners (cleanupCallback this k s) = listeners s"
  by (simp_all add: cleanupCallback_def Let_def split: option.splits)

lemma inv_fresh_resolve:
  assumes "inv s"
  shows "inv (call_resolve (promises s) v (s\<lparr>promises := Suc (promises s)\<rparr>))"
  using inv_Promise_resolve [OF assms, of v]
  by (simp add: Promise_resolve_def new_promise_def)

lemma inv_private_sendMessage:
  assumes "inv s" "this < length (instances s)" "g (minted s) \<noteq> []"
  shows "inv (snd (private_sendMessage g this cmd payload timeoutMs_arg s))"
proof (cases "parent s")
  case False
  let ?s1 = "s\<lparr>promises := Suc (promises s), minted := Suc (minted s)\<rparr>"
  let ?s2 = "cleanupCallback this (g (minted s)) (s\<lparr>minted := Suc (minted s)\<rparr>)"
  have m: "inv (s\<lparr>minted := Suc (minted s)\<rparr>)" using inv_mint [OF assms(1), of 1] by (simp add: mint_def)
  have i2: "inv ?s2" using m assms(2) by (intro inv_cleanupCallback) simp_all
  have eq: "cleanupCallback this (g (minted s)) ?s1 = ?s2\<lparr>promises := Suc (promises ?s2)\<rparr>"
    by (simp add: cleanupCallback_def Let_def set_callbacks_def clear_if_set_def clearTimeout_def
        callbacks_of_def split: option.splits)
  have p2: "promises ?s2 = promises s" by (simp add: cleanupCallback_parts)
  show ?thesis
    using inv_fresh_resolve [OF i2, of "JObj [(''code'', JNum 30001), (''messageId'', JStr (g (minted s)))]"]
    by (simp add: private_sendMessage_unreachable [OF False] eq p2)
next
  case True
  define tid where "tid = (if cmd \<noteq> ''openURL'' \<and> cmd \<noteq> ''scanQRCode''
                           then Some (Suc (timerCount s)) else None)"
  define cb where "cb = \<lparr>resolve = promises s, timeoutId = tid\<rparr>"
  let ?s = "snd (private_sendMessage g this cmd payload timeoutMs_arg s)"
  note eq = private_sendMessage_reachable [OF True assms(2), of g cmd payload timeoutMs_arg]
  have len: "length (instances ?s) = length (instances s)" by (simp add: eq)
  have c: "callbacks_of ?s i =
      (if i = this then AList.update (g (minted s)) cb (callbacks_of s this) else callbacks_of s i)"
    if "i < length (instances s)" for i
    using that assms(2) by (simp add: eq callbacks_of_def cb_def tid_def nth_list_update)
  have pr: "promises ?s = Suc (promises s)" "settled ?s = settled s" "listeners ?s = listeners s"
    by (simp_all add: eq)
  have "registry_ok ?s"
  proof (rule registry_ok_change [where this = this and s = s])
    show "registry_ok s" by (rule inv_parts(1) [OF assms(1)])
    show "length (instances ?s) = length (instances s)" by (rule len)
    show "callbacks_of ?s i = callbacks_of s i" if "i < length (instances s)" "i \<noteq> this" for i
      using that by (simp add: c)
    show "distinct (map fst (callbacks_of ?s this))"
      using registry_ok_distinct [OF inv_parts(1) [OF assms(1)] assms(2)]
      by (simp add: c assms(2) distinct_update)
    show "k' \<noteq> [] \<and> timeoutId cb' \<noteq> Some 0" if "map_of (callbacks_of ?s this) k' = Some cb'" for k' cb'
    proof (cases "k' = g (minted s)")
      case True
      then have "cb' = cb" using that by (simp add: c assms(2) update_conv')
      then show ?thesis using True assms(3) by (simp add: cb_def tid_def)
    next
      case False
      then have "map_of (callbacks_of s this) k' = Some cb'"
        using that by (simp add: c assms(2) update_conv')
      then have "(this, k', cb') \<in> entries s" using assms(2) by (simp add: entries_def)
      then show ?thesis by (rule registry_ok_entry [OF inv_parts(1) [OF assms(1)]])
    qed
  qed
  moreover have "promises_ok ?s"
  proof (rule promises_ok_register [OF inv_parts(2) [OF assms(1)], where i = this
        and k = "g (minted s)" and callback = cb])
    show "entries ?s \<subseteq> insert (this, g (minted s), cb) (entries s)"
      by (auto simp: entries_def len c update_conv' split: if_splits)
    show "resolve cb = promises s" by (simp add: cb_def)
  qed (simp_all add: pr)
  moreover have "refs_ok ?s"
    using inv_parts(3) [OF assms(1)] assms(2)
    unfolding refs_ok_def len pr by (auto simp: eq)
  ultimately show ?thesis by (simp add: inv_def)
qed

lemma inv_handleTimeout:
  assumes "inv s" "this < length (instances s)"
  shows "inv (handleTimeout this k cmd s)"
proof (cases "map_of (callbacks_of s this) k")
  case None
  then show ?thesis using assms(1) by (simp add: handleTimeout_absent)
next
  case (Some callback)
  then have "(this, k, callback) \<in> entries s" using assms(2) by (simp add: entries_def)
  then have "k \<noteq> []" using registry_ok_entry [OF inv_parts(1) [OF assms(1)]] by blast
  then show ?thesis
    using Some assms by (simp add: handleTimeout_found inv_settle)
qed

lemma inv_messageHandler:
  assumes "inv s" "this < length (instances s)"
  shows "inv (messageHandler this result s)"
  using messageHandler_cases [of this result s]
proof (elim disjE exE conjE)
  assume "messageHandler this result s = s"
  then show ?thesis using assms(1) by simp
next
  fix k callback
  assume m: "map_of (callbacks_of s this) k = Some callback"
    and eq: "k \<noteq> [] \<longrightarrow> messageHandler this result s = settle this k callback result s"
  have "(this, k, callback) \<in> entries s" using m assms(2) by (simp add: entries_def)
  then have "k \<noteq> []" using registry_ok_entry [OF inv_parts(1) [OF assms(1)]] by blast
  then show ?thesis using eq m assms by (simp add: inv_settle)
qed

lemma length_messageHandler [simp]:
  "length (instances (messageHandler this result s)) = length (instances s)"
  by (rule frame_length) simp

lemma inv_deliver_fold:
  "inv s \<Longrightarrow> \<forall>i \<in> set bound. i < length (instances s) \<Longrightarrow>
   inv (foldl (\<lambda>s this. messageHandler this result s) s bound)"
proof (induction bound arbitrary: s)
  case Nil
  then show ?case by simp
next
  case (Cons this bound)
  have "inv (messageHandler this result s)" using Cons.prems by (intro inv_messageHandler) simp_all
  then have "inv (foldl (\<lambda>s this. messageHandler this result s) (messageHandler this result s) bound)"
    using Cons.prems(2) by (intro Cons.IH) simp_all
  then show ?case by simp
qed

lemma refs_ok_listener:
  "refs_ok s \<Longrightarrow> i \<in> set (listeners s) \<Longrightarrow> i < length (instances s)"
  unfolding refs_ok_def by (elim conjE) (erule (1) bspec)

lemma refs_ok_timer:
  "refs_ok s \<Longrightarrow> (h, tm) \<in> set (timers s) \<Longrightarrow> timer_this tm < length (instances s)"
  unfolding refs_ok_def by (elim conjE) (drule (1) bspec, simp)

lemma inv_deliver:
  assumes "inv s"
  shows "inv (deliver result s)"
  unfolding deliver_def using assms refs_ok_listener [OF inv_parts(3) [OF assms]]
  by (intro inv_deliver_fold) simp_all

lemma inv_expire:
  assumes "inv s"
  shows "inv (expire handle s)"
proof (cases "map_of (timers s) handle")
  case None
  then show ?thesis using assms by (simp add: expire_def)
next
  case (Some tm)
  let ?s = "s\<lparr>timers := AList.delete handle (timers s)\<rparr>"
  have "(handle, tm) \<in> set (timers s)" using Some by (rule map_of_SomeD)
  then have lt: "timer_this tm < length (instances s)" by (rule refs_ok_timer [OF inv_parts(3) [OF assms]])
  have "registry_ok ?s"
    using inv_parts(1) [OF assms] by (rule registry_ok_same) simp_all
  moreover have "promises_ok ?s"
    using inv_parts(2) [OF assms] by (rule promises_ok_subset) simp_all
  moreover have "refs_ok ?s"
    using inv_parts(3) [OF assms] by (rule refs_ok_subset) (auto simp: delete_as_filter)
  ultimately have "inv ?s" by (simp add: inv_def)
  then have "inv (handleTimeout (timer_this tm) (timer_messageId tm) (timer_cmd tm) ?s)"
    using lt by (intro inv_handleTimeout) simp_all
  then show ?thesis using Some by (simp add: expire_def)
qed

lemma entries_mint_general [simp]: "entries (s\<lparr>minted := n, promises := p\<rparr>) = entries s"
  by simp

lemma inv_sendMessage:
  assumes "inv s" "this < length (instances s)" "\<forall>n. g n \<noteq> []"
  shows "inv (snd (sendMessage g this cmd payload s))"
proof -
  have "sends g this cmd s (sendMessage g this cmd payload s)" by (rule sendMessage_sends)
  then obtain n where
    "(\<exists>v. sendMessage g this cmd payload s = Promise_resolve v (mint n s))
     \<or> (\<exists>p. sendMessage g this cmd payload s = private_sendMessage g this cmd p None (mint n s))"
    unfolding sends_def by blast
  then show ?thesis
  proof (elim disjE exE)
    fix v assume "sendMessage g this cmd payload s = Promise_resolve v (mint n s)"
    then show ?thesis using inv_Promise_resolve [OF inv_mint [OF assms(1)], of v n] by simp
  next
    fix p assume "sendMessage g this cmd payload s = private_sendMessage g this cmd p None (mint n s)"
    moreover have "inv (snd (private_sendMessage g this cmd p None (mint n s)))"
      using assms(2,3) by (intro inv_private_sendMessage inv_mint [OF assms(1)]) simp_all
    ultimately show ?thesis by simp
  qed
qed

lemma constructor_parts:
  "promises (constructor config s) = promises s"
  "settled (constructor config s) = settled s"
  "timers (constructor config s) = timers s"
  "set (listeners (constructor config s)) \<subseteq> insert (length (instances s)) (set (listeners s))"
  "callbacks_of (constructor config s) i =
     (if i < length (instances s) then callbacks_of s i
      else if i = length (instances s) then [] else callbacks_of (constructor config s) i)"
  by (auto simp: constructor_def Let_def callbacks_of_def nth_append split: option.splits)

lemma inv_constructor:
  assumes "inv s"
  shows "inv (constructor config s)"
proof -
  let ?s = "constructor config s"
  have len: "length (instances ?s) = Suc (length (instances s))" by (rule constructor_length)
  have same: "callbacks_of ?s i = callbacks_of s i" if "i < length (instances s)" for i
    using that constructor_parts(5) [of config s i] by simp
  have new: "callbacks_of ?s (length (instances s)) = []"
    using constructor_parts(5) [of config s "length (instances s)"] by simp
  have en: "entries ?s = entries s"
    by (auto simp: entries_def len less_Suc_eq same new)
  have "registry_ok ?s"
    unfolding registry_ok_def en len
  proof (intro conjI allI impI)
    fix i assume "i < Suc (length (instances s))"
    then show "distinct (map fst (callbacks_of ?s i))"
      using registry_ok_distinct [OF inv_parts(1) [OF assms], of i]
      by (cases "i = length (instances s)") (simp_all add: new same)
  next
    fix i k cb assume e: "(i, k, cb) \<in> entries s"
    show "k \<noteq> []" "timeoutId cb \<noteq> Some 0"
      using registry_ok_entry [OF inv_parts(1) [OF assms] e] by simp_all
  qed
  moreover have "promises_ok ?s"
    using inv_parts(2) [OF assms] by (rule promises_ok_subset) (simp_all add: en constructor_parts)
  moreover have "refs_ok ?s"
    unfolding refs_ok_def len constructor_parts(3)
  proof (intro conjI ballI)
    fix i assume "i \<in> set (listeners ?s)"
    then have "i = length (instances s) \<or> i \<in> set (listeners s)"
      using constructor_parts(4) [of config s] by auto
    then show "i < Suc (length (instances s))"
      using refs_ok_listener [OF inv_parts(3) [OF assms], of i] by auto
  next
    fix p assume "p \<in> set (timers s)"
    then show "timer_this (snd p) < Suc (length (instances s))"
      using refs_ok_timer [OF inv_parts(3) [OF assms], of "fst p" "snd p"] by simp
  qed
  ultimately show ?thesis by (simp add: inv_def)
qed

lemma promises_ok_destroy:
  assumes "promises_ok s" "this < length (instances s)" "distinct (map fst (callbacks_of s this))"
    "entries s' \<subseteq> {e \<in> entries s. fst e \<noteq> this}" "promises s' = promises s"
    "settled s' = settled s @ map (\<lambda>(k, cb). (resolve cb, f k)) (callbacks_of s this)"
  shows "promises_ok s'"
proof (rule promises_okI)
  let ?cbs = "callbacks_of s this"
  have mem: "(this, k, cb) \<in> entries s" if "(k, cb) \<in> set ?cbs" for k cb
    using that assms(2,3) by (simp add: entries_def)
  have fsts: "fst ` set (settled s') = fst ` set (settled s) \<union> (\<lambda>(k, cb). resolve cb) ` set ?cbs"
    by (auto simp: assms(6) image_Un image_image split_def)
  {
    fix j k' cb assume e': "(j, k', cb) \<in> entries s'"
    then have e: "(j, k', cb) \<in> entries s" and ne: "j \<noteq> this" using assms(4) by auto
    show "resolve cb < promises s'" using promises_ok_created [OF assms(1) e] by (simp add: assms(5))
    have "resolve cb \<noteq> resolve cb2" if "(k2, cb2) \<in> set ?cbs" for k2 cb2
      using promises_ok_unique [OF assms(1) e mem [OF that]] ne by blast
    then show "resolve cb \<notin> fst ` set (settled s')"
      using promises_ok_unsettled [OF assms(1) e] by (auto simp: fsts)
  next
    fix i' k1 c1 j k2 c2
    assume a: "(i', k1, c1) \<in> entries s'" and b: "(j, k2, c2) \<in> entries s'"
      and e: "resolve c1 = resolve c2"
    have "(i', k1, c1) \<in> entries s" using a assms(4) by auto
    moreover have "(j, k2, c2) \<in> entries s" using b assms(4) by auto
    ultimately show "i' = j \<and> k1 = k2" using e by (rule promises_ok_unique [OF assms(1)])
  next
    fix p assume "p \<in> fst ` set (settled s')"
    then have "p \<in> fst ` set (settled s) \<or> (\<exists>k cb. (k, cb) \<in> set ?cbs \<and> p = resolve cb)"
      by (auto simp: fsts)
    then show "p < promises s'"
    proof (elim disjE exE conjE)
      assume "p \<in> fst ` set (settled s)"
      then have "p < promises s" by (rule promises_ok_log [OF assms(1)])
      then show ?thesis by (simp add: assms(5))
    next
      fix k cb assume "(k, cb) \<in> set ?cbs" "p = resolve cb"
      then show ?thesis using promises_ok_created [OF assms(1) mem] by (simp add: assms(5))
    qed
  next
    have inj: "inj_on (\<lambda>(k, cb). resolve cb) (set ?cbs)"
    proof (rule inj_onI)
      fix x y assume x: "x \<in> set ?cbs" and y: "y \<in> set ?cbs"
        and eq: "(case x of (k, cb) \<Rightarrow> resolve cb) = (case y of (k, cb) \<Rightarrow> resolve cb)"
      obtain k1 c1 where x': "x = (k1, c1)" by (cases x)
      obtain k2 c2 where y': "y = (k2, c2)" by (cases y)
      have "k1 = k2"
        using promises_ok_unique [OF assms(1) mem mem, of k1 c1 k2 c2] x y eq
        by (simp add: x' y')
      moreover have "map_of ?cbs k1 = Some c1" "map_of ?cbs k2 = Some c2"
        using x y assms(3) by (simp_all add: x' y')
      ultimately show "x = y" by (simp add: x' y')
    qed
    have d: "distinct ?cbs" using assms(3) by (simp add: distinct_map)
    have "distinct (map (\<lambda>(k, cb). resolve cb) ?cbs)"
      using d inj by (simp add: distinct_map)
    moreover have "(resolve cb, v) \<notin> set (settled s)" if "(k, cb) \<in> set ?cbs" for k cb v
    proof
      assume "(resolve cb, v) \<in> set (settled s)"
      then have "fst (resolve cb, v) \<in> fst ` set (settled s)" by (rule imageI)
      then show False using promises_ok_unsettled [OF assms(1) mem [OF that]] by simp
    qed
    ultimately show "distinct (map fst (settled s'))"
      using promises_ok_distinct [OF assms(1)]
      by (auto simp: assms(6) split_def comp_def)
  }
qed

lemma destroy_entries:
  assumes "this < length (instances s)"
  shows "entries (destroy this s) = {e \<in> entries s. fst e \<noteq> this}"
  using assms by (auto simp: entries_def destroy_length destroy_parts(4) split: if_splits)

lemma destroy_settled:
  assumes "distinct (map fst (callbacks_of s this))"
  shows "settled (destroy this s) =
           settled s @ map (\<lambda>(k, cb). (resolve cb, destroyed_response k)) (callbacks_of s this)"
proof -
  have "resolved (callbacks_of s this) (map fst (callbacks_of s this)) =
        map (\<lambda>(k, callback). (resolve callback, destroyed_response k)) (callbacks_of s this)"
    using assms by (rule resolved_entries) simp
  then show ?thesis by (simp add: destroy_parts(1))
qed

lemma destroy_listeners: "set (listeners (destroy this s)) \<subseteq> set (listeners s)"
proof (cases "listenerFn s")
  case None
  then show ?thesis by (simp add: destroy_frame(3))
next
  case (Some f)
  show ?thesis
    using set_remove1_subset [of f "listeners s"] by (simp add: destroy_frame(3) Some)
qed

lemma destroy_timers: "set (timers (destroy this s)) \<subseteq> set (timers s)"
  by (auto simp: destroy_parts(2))

lemma inv_destroy:
  assumes "inv s" "this < length (instances s)"
  shows "inv (destroy this s)"
proof -
  let ?s = "destroy this s"
  have d: "distinct (map fst (callbacks_of s this))"
    by (rule registry_ok_distinct [OF inv_parts(1) [OF assms(1)] assms(2)])
  have "registry_ok ?s"
  proof (rule registry_ok_change [where this = this and s = s])
    show "registry_ok s" by (rule inv_parts(1) [OF assms(1)])
    show "length (instances ?s) = length (instances s)" by (rule destroy_length)
    show "callbacks_of ?s i = callbacks_of s i" if "i \<noteq> this" for i
      using that assms(2) by (simp add: destroy_parts(4))
    show "distinct (map fst (callbacks_of ?s this))" using assms(2) by (simp add: destroy_parts(4))
    show "k' \<noteq> [] \<and> timeoutId cb \<noteq> Some 0" if "map_of (callbacks_of ?s this) k' = Some cb" for k' cb
      using that assms(2) by (simp add: destroy_parts(4))
  qed
  moreover have "promises_ok ?s"
  proof (rule promises_ok_destroy [OF inv_parts(2) [OF assms(1)] assms(2) d])
    show "entries ?s \<subseteq> {e \<in> entries s. fst e \<noteq> this}"
      by (simp add: destroy_entries [OF assms(2)])
    show "promises ?s = promises s" by (rule destroy_parts(3))
    show "settled ?s = settled s @ map (\<lambda>(k, cb). (resolve cb, destroyed_response k)) (callbacks_of s this)"
      by (rule destroy_settled [OF d])
  qed
  moreover have "refs_ok ?s"
    unfolding refs_ok_def destroy_length
  proof (intro conjI ballI)
    fix i assume "i \<in> set (listeners ?s)"
    then have "i \<in> set (listeners s)" using destroy_listeners by blast
    then show "i < length (instances s)" by (rule refs_ok_listener [OF inv_parts(3) [OF assms(1)]])
  next
    fix p assume "p \<in> set (timers ?s)"
    then have "p \<in> set (timers s)" using destroy_timers by blast
    then show "timer_this (snd p) < length (instances s)"
      using refs_ok_timer [OF inv_parts(3) [OF assms(1)], of "fst p" "snd p"] by simp
  qed
  ultimately show ?thesis by (simp add: inv_def)
qed

lemma inv_step:
  assumes "inv s" "\<forall>n. g n \<noteq> []"
  shows "inv (step g s e)"
proof (cases e)
  case (New config)
  then show ?thesis using assms(1) by (simp add: inv_constructor)
next
  case (Send this cmd payload)
  then show ?thesis using assms by (simp add: inv_sendMessage)
next
  case (Destroy this)
  then show ?thesis using assms(1) by (simp add: inv_destroy)
next
  case (Message result)
  then show ?thesis using assms(1) by (simp add: inv_deliver)
next
  case (Expire handle)
  then show ?thesis using assms(1) by (simp add: inv_expire)
qed

lemma inv_run:
  assumes "\<forall>n. g n \<noteq> []"
  shows "inv s \<Longrightarrow> inv (run g evs s)"
proof (induction evs arbitrary: s)
  case Nil
  then show ?case by (simp add: run_def)
next
  case (Cons e evs)
  have "inv (step g s e)" using Cons.prems assms by (rule inv_step)
  then have "inv (run g evs (step g s e))" by (rule Cons.IH)
  then show ?case by (simp add: run_def)
qed

subsection \<open>Tokens and promises of later states\<close>

lemma growsI:
  assumes "minted s \<le> minted t" "promises s \<le> promises t"
    "\<And>i k cb. (i, k, cb) \<in> entries t \<Longrightarrow>
       (i, k, cb) \<in> entries s \<or> (promises s \<le> resolve cb \<and> k \<in> g ` {minted s..<minted t})"
    "\<And>p. p \<in> set (timers t) \<Longrightarrow>
       p \<in> set (timers s) \<or> timer_messageId (snd p) \<in> g ` {minted s..<minted t}"
  shows "grows g s t"
  unfolding grows_def
  apply (intro conjI allI impI ballI)
     apply (rule assms(1))
    apply (rule assms(2))
   apply (erule assms(3))
  apply (erule assms(4))
  done

lemma grows_minted: "grows g s t \<Longrightarrow> minted s \<le> minted t"
  unfolding grows_def by (elim conjE)

lemma grows_promises: "grows g s t \<Longrightarrow> promises s \<le> promises t"
  unfolding grows_def by (elim conjE)

lemma grows_entry:
  "grows g s t \<Longrightarrow> (i, k, cb) \<in> entries t \<Longrightarrow>
   (i, k, cb) \<in> entries s \<or> (promises s \<le> resolve cb \<and> k \<in> g ` {minted s..<minted t})"
  unfolding grows_def by (elim conjE allE [of _ i] allE [of _ k] allE [of _ cb]) simp

lemma grows_timer:
  "grows g s t \<Longrightarrow> p \<in> set (timers t) \<Longrightarrow>
   p \<in> set (timers s) \<or> timer_messageId (snd p) \<in> g ` {minted s..<minted t}"
  unfolding grows_def by (elim conjE) (erule (1) bspec)

lemma grows_shrink:
  assumes "entries t \<subseteq> entries s" "set (timers t) \<subseteq> set (timers s)"
    "minted t = minted s" "promises t = promises s"
  shows "grows g s t"
proof (rule growsI)
  fix i k cb assume "(i, k, cb) \<in> entries t"
  then have "(i, k, cb) \<in> entries s" using assms(1) by (rule rev_subsetD)
  then show "(i, k, cb) \<in> entries s \<or> (promises s \<le> resolve cb \<and> k \<in> g ` {minted s..<minted t})"
    by (rule disjI1)
next
  fix p assume "p \<in> set (timers t)"
  then have "p \<in> set (timers s)" using assms(2) by (rule rev_subsetD)
  then show "p \<in> set (timers s) \<or> timer_messageId (snd p) \<in> g ` {minted s..<minted t}"
    by (rule disjI1)
qed (simp_all add: assms)

lemma grows_refl: "grows g s s"
  by (rule grows_shrink) simp_all

lemma grows_trans:
  assumes "grows g s t" "grows g t u"
  shows "grows g s u"
proof (rule growsI)
  note m = grows_minted [OF assms(1)] grows_minted [OF assms(2)]
  note p = grows_promises [OF assms(1)] grows_promises [OF assms(2)]
  show "minted s \<le> minted u" using m by simp
  show "promises s \<le> promises u" using p by simp
  have sub1: "g ` {minted s..<minted t} \<subseteq> g ` {minted s..<minted u}"
    using m by (intro image_mono) auto
  have sub2: "g ` {minted t..<minted u} \<subseteq> g ` {minted s..<minted u}"
    using m by (intro image_mono) auto
  {
    fix i k cb assume "(i, k, cb) \<in> entries u"
    then have "(i, k, cb) \<in> entries t \<or> (promises t \<le> resolve cb \<and> k \<in> g ` {minted t..<minted u})"
      by (rule grows_entry [OF assms(2)])
    then show "(i, k, cb) \<in> entries s \<or> (promises s \<le> resolve cb \<and> k \<in> g ` {minted s..<minted u})"
    proof
      assume "(i, k, cb) \<in> entries t"
      then have "(i, k, cb) \<in> entries s \<or> (promises s \<le> resolve cb \<and> k \<in> g ` {minted s..<minted t})"
        by (rule grows_entry [OF assms(1)])
      then show ?thesis using sub1 by blast
    next
      assume "promises t \<le> resolve cb \<and> k \<in> g ` {minted t..<minted u}"
      then show ?thesis using sub2 p(1) by (meson order_trans subsetD)
    qed
  next
    fix q assume "q \<in> set (timers u)"
    then have "q \<in> set (timers t) \<or> timer_messageId (snd q) \<in> g ` {minted t..<minted u}"
      by (rule grows_timer [OF assms(2)])
    then show "q \<in> set (timers s) \<or> timer_messageId (snd q) \<in> g ` {minted s..<minted u}"
    proof
      assume "q \<in> set (timers t)"
      then have "q \<in> set (timers s) \<or> timer_messageId (snd q) \<in> g ` {minted s..<minted t}"
        by (rule grows_timer [OF assms(1)])
      then show ?thesis using sub1 by blast
    next
      assume "timer_messageId (snd q) \<in> g ` {minted t..<minted u}"
      then show ?thesis using sub2 by blast
    qed
  }
qed

lemma minted_simple [simp]:
  "minted (clearTimeout h s) = minted s"
  "minted (clear_if_set tid s) = minted s"
  "minted (call_resolve p v s) = minted s"
  "minted (postMessage message s) = minted s"
  "minted (mint n s) = minted s + n"
  "minted (set_callbacks this cbs s) = minted s"
  by (simp_all add: clearTimeout_def clear_if_set_def call_resolve_def postMessage_def mint_def
      set_callbacks_def split: option.splits)

lemma grows_mint: "grows g s (mint n s)"
proof (rule growsI)
  show "p \<in> set (timers s) \<or> timer_messageId (snd p) \<in> g ` {minted s..<minted (mint n s)}"
    if "p \<in> set (timers (mint n s))" for p using that by simp
qed simp_all

lemma grows_Promise_resolve: "grows g s (snd (Promise_resolve v s))"
proof -
  have s: "snd (Promise_resolve v s) =
           s\<lparr>promises := Suc (promises s), settled := settled s @ [(promises s, v)]\<rparr>"
    by (simp add: Promise_resolve_def new_promise_def call_resolve_def)
  show ?thesis unfolding s by (rule growsI) simp_all
qed

lemma cleanupCallback_entries:
  assumes "this < length (instances s)"
  shows "entries (cleanupCallback this k s) \<subseteq> entries s"
proof (cases "k \<noteq> [] \<and> map_of (callbacks_of s this) k \<noteq> None")
  case False
  then have "cleanupCallback this k s = s" by (auto simp: cleanupCallback_def)
  then show ?thesis by simp
next
  case True
  then obtain cb where "map_of (callbacks_of s this) k = Some cb" by auto
  then have "cleanupCallback this k s =
      set_callbacks this (AList.delete k (callbacks_of s this)) (clear_if_set (timeoutId cb) s)"
    using True by (simp add: cleanupCallback_found)
  then show ?thesis
    using assms by (simp add: entries_set_callbacks) (auto simp: entries_def delete_conv')
qed

lemma cleanupCallback_more:
  "minted (cleanupCallback this k s) = minted s"
  "set (timers (cleanupCallback this k s)) \<subseteq> set (timers s)"
  using timers_clear_if_set
  by (auto simp: cleanupCallback_def Let_def split: option.splits)

lemma grows_private_sendMessage:
  assumes "this < length (instances s)"
  shows "grows g s (snd (private_sendMessage g this cmd payload timeoutMs_arg s))"
proof (cases "parent s")
  case False
  let ?s1 = "s\<lparr>promises := Suc (promises s), minted := Suc (minted s)\<rparr>"
  let ?t = "call_resolve (promises s) (JObj [(''code'', JNum 30001), (''messageId'', JStr (g (minted s)))])
              (cleanupCallback this (g (minted s)) ?s1)"
  have "entries (cleanupCallback this (g (minted s)) ?s1) \<subseteq> entries ?s1"
    using assms by (intro cleanupCallback_entries) simp
  then have e: "entries ?t \<subseteq> entries s" by simp
  have t: "set (timers ?t) \<subseteq> set (timers s)"
    using cleanupCallback_more(2) [of this "g (minted s)" ?s1] by simp
  have "grows g s ?t"
  proof (rule growsI)
    fix i k cb assume "(i, k, cb) \<in> entries ?t"
    then show "(i, k, cb) \<in> entries s \<or> (promises s \<le> resolve cb \<and> k \<in> g ` {minted s..<minted ?t})"
      using e by blast
  next
    fix p assume "p \<in> set (timers ?t)"
    then show "p \<in> set (timers s) \<or> timer_messageId (snd p) \<in> g ` {minted s..<minted ?t}"
      using t by blast
  qed (simp_all add: cleanupCallback_more cleanupCallback_parts)
  then show ?thesis by (simp add: private_sendMessage_unreachable [OF False])
next
  case True
  let ?t = "snd (private_sendMessage g this cmd payload timeoutMs_arg s)"
  note eq = private_sendMessage_reachable [OF True assms, of g cmd payload timeoutMs_arg]
  have m: "minted ?t = Suc (minted s)" "promises ?t = Suc (promises s)"
    "length (instances ?t) = length (instances s)"
    by (simp_all add: eq)
  have tok: "g (minted s) \<in> g ` {minted s..<minted ?t}" by (simp add: m)
  show ?thesis
  proof (rule growsI)
    fix i k cb assume "(i, k, cb) \<in> entries ?t"
    then show "(i, k, cb) \<in> entries s \<or> (promises s \<le> resolve cb \<and> k \<in> g ` {minted s..<minted ?t})"
      using tok assms
      by (auto simp: entries_def m eq callbacks_of_def nth_list_update update_conv'
          split: if_splits)
  next
    fix p assume "p \<in> set (timers ?t)"
    then show "p \<in> set (timers s) \<or> timer_messageId (snd p) \<in> g ` {minted s..<minted ?t}"
      using tok by (auto simp: eq split: if_splits)
  qed (simp_all add: m)
qed

lemma grows_sendMessage:
  assumes "this < length (instances s)"
  shows "grows g s (snd (sendMessage g this cmd payload s))"
proof -
  have "sends g this cmd s (sendMessage g this cmd payload s)" by (rule sendMessage_sends)
  then obtain n where
    "(\<exists>v. sendMessage g this cmd payload s = Promise_resolve v (mint n s))
     \<or> (\<exists>p. sendMessage g this cmd payload s = private_sendMessage g this cmd p None (mint n s))"
    unfolding sends_def by blast
  then show ?thesis
  proof (elim disjE exE)
    fix v assume "sendMessage g this cmd payload s = Promise_resolve v (mint n s)"
    then show ?thesis
      using grows_trans [OF grows_mint [of g s n] grows_Promise_resolve [of g "mint n s" v]] by simp
  next
    fix p assume e: "sendMessage g this cmd payload s = private_sendMessage g this cmd p None (mint n s)"
    have "grows g (mint n s) (snd (private_sendMessage g this cmd p None (mint n s)))"
      using assms by (intro grows_private_sendMessage) simp
    then show ?thesis using grows_trans [OF grows_mint [of g s n]] e by simp
  qed
qed

lemma grows_cleanupCallback:
  assumes "this < length (instances s)"
  shows "grows g s (cleanupCallback this k s)"
  using cleanupCallback_entries [OF assms]
  by (rule grows_shrink) (simp_all add: cleanupCallback_more cleanupCallback_parts)

lemma grows_call_resolve: "grows g s (call_resolve p v s)"
  by (rule grows_shrink) simp_all

lemma grows_handleTimeout:
  assumes "this < length (instances s)"
  shows "grows g s (handleTimeout this k cmd s)"
proof (cases "map_of (callbacks_of s this) k")
  case None
  then show ?thesis by (simp add: handleTimeout_absent grows_refl)
next
  case (Some cb)
  let ?s = "call_resolve (resolve cb) (handleError cmd (JStr k) (err TimeoutError ''Request timed out'')) s"
  have "grows g ?s (cleanupCallback this k ?s)"
    using assms by (intro grows_cleanupCallback) simp
  then have "grows g s (cleanupCallback this k ?s)"
    by (rule grows_trans [OF grows_call_resolve])
  then show ?thesis using Some by (simp add: handleTimeout_def Let_def)
qed

lemma grows_messageHandler:
  assumes "this < length (instances s)"
  shows "grows g s (messageHandler this result s)"
proof -
  have "grows g s (call_resolve p result (cleanupCallback this k s))" for p k
    by (rule grows_trans [OF grows_cleanupCallback [OF assms] grows_call_resolve])
  then show ?thesis
    by (simp add: messageHandler_def Let_def grows_refl split: option.splits)
qed

lemma grows_deliver_fold:
  "\<forall>i \<in> set bound. i < length (instances s) \<Longrightarrow>
   grows g s (foldl (\<lambda>s this. messageHandler this result s) s bound)"
proof (induction bound arbitrary: s)
  case Nil
  then show ?case by (simp add: grows_refl)
next
  case (Cons this bound)
  have 1: "grows g s (messageHandler this result s)"
    using Cons.prems by (intro grows_messageHandler) simp
  have 2: "grows g (messageHandler this result s)
             (foldl (\<lambda>s this. messageHandler this result s) (messageHandler this result s) bound)"
    using Cons.prems by (intro Cons.IH) simp
  show ?case using grows_trans [OF 1 2] by simp
qed

lemma grows_deliver:
  assumes "inv s"
  shows "grows g s (deliver result s)"
  unfolding deliver_def using refs_ok_listener [OF inv_parts(3) [OF assms]]
  by (intro grows_deliver_fold) simp

lemma grows_expire:
  assumes "inv s"
  shows "grows g s (expire handle s)"
proof (cases "map_of (timers s) handle")
  case None
  then show ?thesis by (simp add: expire_def grows_refl)
next
  case (Some tm)
  let ?s = "s\<lparr>timers := AList.delete handle (timers s)\<rparr>"
  have "(handle, tm) \<in> set (timers s)" using Some by (rule map_of_SomeD)
  then have lt: "timer_this tm < length (instances s)"
    by (rule refs_ok_timer [OF inv_parts(3) [OF assms]])
  have 1: "grows g s ?s" by (rule grows_shrink) (auto simp: delete_as_filter)
  have 2: "grows g ?s (handleTimeout (timer_this tm) (timer_messageId tm) (timer_cmd tm) ?s)"
    using lt by (intro grows_handleTimeout) simp
  show ?thesis using grows_trans [OF 1 2] Some by (simp add: expire_def)
qed

lemma destroy_minted: "minted (destroy this s) = minted s"
proof -
  have "minted (foldl (destroy_callback cbs) t ks) = minted t" for cbs t ks
    by (induction ks arbitrary: t)
      (simp_all add: destroy_callback_eq split: option.splits)
  then show ?thesis
    by (simp add: destroy_def Let_def split: option.splits)
qed

lemma grows_destroy:
  assumes "this < length (instances s)"
  shows "grows g s (destroy this s)"
proof (rule grows_shrink)
  show "entries (destroy this s) \<subseteq> entries s" by (auto simp: destroy_entries [OF assms])
  show "set (timers (destroy this s)) \<subseteq> set (timers s)" by (rule destroy_timers)
  show "minted (destroy this s) = minted s" by (rule destroy_minted)
  show "promises (destroy this s) = promises s" by (rule destroy_parts(3))
qed

lemma constructor_entries: "entries (constructor config s) = entries s"
proof -
  let ?s = "constructor config s"
  have len: "length (instances ?s) = Suc (length (instances s))" by (rule constructor_length)
  have same: "callbacks_of ?s i = callbacks_of s i" if "i < length (instances s)" for i
    using that constructor_parts(5) [of config s i] by simp
  have new: "callbacks_of ?s (length (instances s)) = []"
    using constructor_parts(5) [of config s "length (instances s)"] by simp
  show ?thesis by (auto simp: entries_def len less_Suc_eq same new)
qed

lemma constructor_minted: "minted (constructor config s) = minted s"
  by (simp add: constructor_def Let_def split: option.splits)

lemma grows_constructor: "grows g s (constructor config s)"
  by (rule grows_shrink) (simp_all add: constructor_entries constructor_parts constructor_minted)

lemma grows_step:
  assumes "inv s"
  shows "grows g s (step g s e)"
proof (cases e)
  case (New config)
  then show ?thesis by (simp add: grows_constructor)
next
  case (Send this cmd payload)
  then show ?thesis by (simp add: grows_sendMessage grows_refl)
next
  case (Destroy this)
  then show ?thesis by (simp add: grows_destroy grows_refl)
next
  case (Message result)
  then show ?thesis using assms by (simp add: grows_deliver)
next
  case (Expire handle)
  then show ?thesis using assms by (simp add: grows_expire)
qed

lemma grows_run:
  assumes "\<forall>n. g n \<noteq> []"
  shows "inv s \<Longrightarrow> grows g s (run g evs s)"
proof (induction evs arbitrary: s)
  case Nil
  then show ?case by (simp add: run_def grows_refl)
next
  case (Cons e evs)
  have 1: "grows g s (step g s e)" using Cons.prems by (rule grows_step)
  have "inv (step g s e)" using Cons.prems assms by (rule inv_step)
  then have 2: "grows g (step g s e) (run g evs (step g s e))" by (rule Cons.IH)
  show ?case using grows_trans [OF 1 2] by (simp add: run_def)
qed

subsection \<open>Calls that no timer settles\<close>

lemma example_uuid_inj: "inj example_uuid"
proof (rule injI)
  fix m n assume "example_uuid m = example_uuid n"
  then have "length (example_uuid m) = length (example_uuid n)" by (rule arg_cong)
  then show "m = n" by (simp add: example_uuid_def)
qed

lemma example_uuid_nonempty: "\<forall>n. example_uuid n \<noteq> []"
  by (simp add: example_uuid_def)

lemma expire_settled:
  assumes "inv t"
  shows "settled (expire handle t) = settled t
     \<or> (\<exists>tm cb v. (handle, tm) \<in> set (timers t)
          \<and> (timer_this tm, timer_messageId tm, cb) \<in> entries t
          \<and> settled (expire handle t) = settled t @ [(resolve cb, v)])"
proof (cases "map_of (timers t) handle")
  case None
  then show ?thesis by (simp add: expire_def)
next
  case (Some tm)
  let ?s = "t\<lparr>timers := AList.delete handle (timers t)\<rparr>"
  have tm: "(handle, tm) \<in> set (timers t)" using Some by (rule map_of_SomeD)
  then have lt: "timer_this tm < length (instances t)"
    by (rule refs_ok_timer [OF inv_parts(3) [OF assms]])
  have c: "callbacks_of ?s i = callbacks_of t i" for i by (simp add: callbacks_of_def)
  show ?thesis
  proof (cases "map_of (callbacks_of t (timer_this tm)) (timer_messageId tm)")
    case None
    then show ?thesis using Some by (simp add: expire_def handleTimeout_absent c)
  next
    case (Some cb)
    have en: "(timer_this tm, timer_messageId tm, cb) \<in> entries t"
      using Some lt by (simp add: entries_def)
    have "settled (expire handle t) =
        settled t @ [(resolve cb, handleError (timer_cmd tm) (JStr (timer_messageId tm))
                                    (err TimeoutError ''Request timed out''))]"
      using Some \<open>map_of (timers t) handle = Some tm\<close>
      by (simp add: expire_def handleTimeout_def c Let_def cleanupCallback_parts call_resolve_def)
    then show ?thesis using tm en by blast
  qed
qed

lemma tokens_of_timers:
  assumes "\<forall>n. g n \<noteq> []" "p \<in> set (timers (mint k (run g evs (initial b))))"
  shows "timer_messageId (snd p) \<in> g ` {..<minted (mint k (run g evs (initial b)))}"
proof -
  let ?s = "mint k (run g evs (initial b))"
  have "grows g (initial b) ?s"
    by (rule grows_trans [OF grows_run [OF assms(1) inv_initial] grows_mint])
  from grows_timer [OF this assms(2)] show ?thesis
    by (simp add: initial_def atLeast0LessThan)
qed

lemma no_expiry_settles:
  assumes g: "inj g" "\<forall>n. g n \<noteq> []"
    and s: "inv s" "parent s" "this < length (instances s)"
    and old: "\<And>p. p \<in> set (timers s) \<Longrightarrow> timer_messageId (snd p) \<in> g ` {..<minted s}"
    and cmd: "cmd = ''openURL'' \<or> cmd = ''scanQRCode''"
  shows "filter (\<lambda>v. fst v = promises s)
           (settled (expire handle (run g evs' (snd (private_sendMessage g this cmd payload None s)))))
       = filter (\<lambda>v. fst v = promises s)
           (settled (run g evs' (snd (private_sendMessage g this cmd payload None s))))"
proof -
  let ?s' = "snd (private_sendMessage g this cmd payload None s)"
  let ?t = "run g evs' ?s'"
  note eq = private_sendMessage_reachable [OF s(2,3), of g cmd payload None]
  have i': "inv ?s'" using s(1,3) g(2) by (intro inv_private_sendMessage) simp_all
  have it: "inv ?t" by (rule inv_run [OF g(2) i'])
  have gr: "grows g ?s' ?t" by (rule grows_run [OF g(2) i'])
  have m': "minted ?s' = Suc (minted s)" "promises ?s' = Suc (promises s)" "timers ?s' = timers s"
    using cmd by (auto simp: eq)
  have e': "(this, g (minted s), \<lparr>resolve = promises s, timeoutId = None\<rparr>) \<in> entries ?s'"
    using cmd s(3) by (auto simp: eq entries_def callbacks_of_def update_conv')
  have no: "timer_messageId (snd p) \<noteq> g (minted s)" if "p \<in> set (timers ?t)" for p
  proof
    assume a: "timer_messageId (snd p) = g (minted s)"
    from grows_timer [OF gr that]
    have "p \<in> set (timers s) \<or> g (minted s) \<in> g ` {Suc (minted s)..<minted ?t}"
      by (simp add: m' a)
    then have "g (minted s) \<in> g ` {..<minted s} \<or> g (minted s) \<in> g ` {Suc (minted s)..<minted ?t}"
      using old [of p] a by auto
    then show False using g(1) by (auto simp: inj_image_mem_iff)
  qed
  show ?thesis using expire_settled [OF it, of handle]
  proof (elim disjE exE conjE)
    assume "settled (expire handle ?t) = settled ?t"
    then show ?thesis by simp
  next
    fix tm cb v
    assume tm: "(handle, tm) \<in> set (timers ?t)"
      and en: "(timer_this tm, timer_messageId tm, cb) \<in> entries ?t"
      and st: "settled (expire handle ?t) = settled ?t @ [(resolve cb, v)]"
    have "resolve cb \<noteq> promises s"
    proof
      assume r: "resolve cb = promises s"
      from grows_entry [OF gr en]
      have "(timer_this tm, timer_messageId tm, cb) \<in> entries ?s'" by (simp add: m' r)
      from promises_ok_unique [OF inv_parts(2) [OF i'] this e'] r
      have "timer_messageId tm = g (minted s)" by simp
      then show False using no [OF tm] by simp
    qed
    then show ?thesis by (simp add: st)
  qed
qed

text \<open>
  C7 (amended): when a message is dispatched to a reachable host, after any run and after
  the \<open>k\<close> tokens that the public method generates before it dispatches, for every command
  except exactly \<open>openURL\<close> and \<open>scanQRCode\<close> a timer is armed at the timeout of the sending
  client and its handle is stored in the pending call. That timeout is the override given
  at construction if it is truthy and 30000 ms otherwise (\<open>config.timeout || 30000\<close>: in
  JavaScript the falsy numbers are 0 and \<open>NaN\<close>; the timeouts of the model are integers,
  where truthy means not zero). For those two commands the pending call is registered
  without handle and no timer is armed; and, when the generated tokens are not empty and
  never repeat, as UUIDs are, no timer that expires in any later run calls the \<open>resolve\<close>
  function of that call: it never settles by timeout.
\<close>

theorem timer_armed_unless_fire_and_forget:
  assumes "this < length (configs evs)"
  shows "(let s = mint k (run g evs (initial True));
              (promise, s') = private_sendMessage g this cmd payload None s;
              messageId = g (minted s)
          in map_of (callbacks_of s' this) messageId =
               Some \<lparr>resolve = promise,
                     timeoutId = (if cmd = ''openURL'' \<or> cmd = ''scanQRCode'' then None
                                  else Some (Suc (timerCount s)))\<rparr>
             \<and> timers s' =
                 (if cmd = ''openURL'' \<or> cmd = ''scanQRCode'' then timers s
                  else timers s @ [(Suc (timerCount s),
                         \<lparr>timer_this = this, timer_messageId = messageId, timer_cmd = cmd,
                          timer_delay = effective_timeout (configs evs ! this)\<rparr>)])
             \<and> (inj g \<and> (\<forall>n. g n \<noteq> []) \<and> (cmd = ''openURL'' \<or> cmd = ''scanQRCode'') \<longrightarrow>
                  (\<forall>evs' handle.
                     filter (\<lambda>v. fst v = promise) (settled (expire handle (run g evs' s')))
                     = filter (\<lambda>v. fst v = promise) (settled (run g evs' s')))))"
proof -
  let ?r = "run g evs (initial True)"
  let ?s = "mint k ?r"
  have p: "parent ?s" using run_defaults [of g evs "initial True"] by (simp add: initial_def mint_def)
  have m: "map defaultTimeout (instances ?r) = map effective_timeout (configs evs)"
    using run_defaults [of g evs "initial True"] by (simp add: initial_def)
  then have len: "length (instances ?r) = length (configs evs)" by (rule map_eq_imp_length_eq)
  then have lt: "this < length (instances ?s)" using assms by simp
  have "map defaultTimeout (instances ?r) ! this = map effective_timeout (configs evs) ! this"
    by (simp only: m)
  then have "defaultTimeout (instances ?r ! this) = effective_timeout (configs evs ! this)"
    using len assms by simp
  then have d: "defaultTimeout (instances ?s ! this) = effective_timeout (configs evs ! this)"
    by (simp add: mint_def)
  have fst: "fst (private_sendMessage g this cmd payload None ?s) = promises ?s"
    by (simp add: private_sendMessage_reachable [OF p lt])
  have 1: "map_of (callbacks_of (snd (private_sendMessage g this cmd payload None ?s)) this) (g (minted ?s)) =
               Some \<lparr>resolve = promises ?s,
                     timeoutId = (if cmd = ''openURL'' \<or> cmd = ''scanQRCode'' then None
                                  else Some (Suc (timerCount ?s)))\<rparr>"
    using lt by (simp add: private_sendMessage_reachable [OF p lt] callbacks_of_def update_conv')
  have 2: "timers (snd (private_sendMessage g this cmd payload None ?s)) =
                 (if cmd = ''openURL'' \<or> cmd = ''scanQRCode'' then timers ?s
                  else timers ?s @ [(Suc (timerCount ?s),
                         \<lparr>timer_this = this, timer_messageId = g (minted ?s), timer_cmd = cmd,
                          timer_delay = effective_timeout (configs evs ! this)\<rparr>)])"
    by (simp add: private_sendMessage_reachable [OF p lt] d)
  have 3: "filter (\<lambda>v. fst v = promises ?s)
             (settled (expire handle (run g evs' (snd (private_sendMessage g this cmd payload None ?s)))))
         = filter (\<lambda>v. fst v = promises ?s)
             (settled (run g evs' (snd (private_sendMessage g this cmd payload None ?s))))"
    if g: "inj g" "\<forall>n. g n \<noteq> []" and "cmd = ''openURL'' \<or> cmd = ''scanQRCode''" for evs' handle
  proof -
    have "inv ?s" by (rule inv_mint [OF inv_run [OF g(2) inv_initial]])
    then show ?thesis
      using g p lt tokens_of_timers [OF g(2)] that(3) by (intro no_expiry_settles)
  qed
  show ?thesis
    unfolding Let_def split_def fst
    using 1 2 3 by blast
qed


theorem timer_armed_unless_fire_and_forget_witness:
  "map (timer_delay \<circ> snd)
     (timers (snd (private_sendMessage example_uuid 0 ''getLanguage'' (JObj [(''data'', JObj [])]) None
        (mint 0 (run example_uuid [New \<lparr>timeout = Some 5000\<rparr>] (initial True)))))) = [5000]
   \<and> timers (snd (private_sendMessage example_uuid 0 ''openURL'' (JObj [(''data'', JObj [])]) None
        (mint 0 (run example_uuid [New \<lparr>timeout = Some 5000\<rparr>] (initial True))))) = []
   \<and> filter (\<lambda>v. fst v = 0)
       (settled (expire 1 (run example_uuid [Send 0 ''getLanguage'' JUndefined]
          (snd (private_sendMessage example_uuid 0 ''openURL'' (JObj [(''data'', JObj [])]) None
             (mint 0 (run example_uuid [New \<lparr>timeout = Some 5000\<rparr>] (initial True)))))))) = []"
proof -
  have l: "0 < length (configs [New \<lparr>timeout = Some 5000\<rparr>])" by simp
  note a = timer_armed_unless_fire_and_forget [OF l, where g = example_uuid and k = 0 and cmd = "''getLanguage''" and payload = "JObj [(''data'', JObj [])]"]
  note b = timer_armed_unless_fire_and_forget [OF l, where g = example_uuid and k = 0 and cmd = "''openURL''" and payload = "JObj [(''data'', JObj [])]"]
  have 1: "map (timer_delay \<circ> snd)
     (timers (snd (private_sendMessage example_uuid 0 ''getLanguage'' (JObj [(''data'', JObj [])]) None
        (mint 0 (run example_uuid [New \<lparr>timeout = Some 5000\<rparr>] (initial True)))))) = [5000]"
    using a by (simp add: Let_def split_def effective_timeout_def run_def constructor_def initial_def mint_def)
  have 2: "timers (snd (private_sendMessage example_uuid 0 ''openURL'' (JObj [(''data'', JObj [])]) None
        (mint 0 (run example_uuid [New \<lparr>timeout = Some 5000\<rparr>] (initial True))))) = []"
    using b by (simp add: Let_def split_def effective_timeout_def run_def constructor_def initial_def mint_def)
  have "\<forall>evs' handle.
      filter (\<lambda>v. fst v = fst (private_sendMessage example_uuid 0 ''openURL'' (JObj [(''data'', JObj [])]) None
                 (mint 0 (run example_uuid [New \<lparr>timeout = Some 5000\<rparr>] (initial True)))))
        (settled (expire handle (run example_uuid evs'
           (snd (private_sendMessage example_uuid 0 ''openURL'' (JObj [(''data'', JObj [])]) None
              (mint 0 (run example_uuid [New \<lparr>timeout = Some 5000\<rparr>] (initial True))))))))
      = filter (\<lambda>v. fst v = fst (private_sendMessage example_uuid 0 ''openURL'' (JObj [(''data'', JObj [])]) None
                 (mint 0 (run example_uuid [New \<lparr>timeout = Some 5000\<rparr>] (initial True)))))
        (settled (run example_uuid evs'
           (snd (private_sendMessage example_uuid 0 ''openURL'' (JObj [(''data'', JObj [])]) None
              (mint 0 (run example_uuid [New \<lparr>timeout = Some 5000\<rparr>] (initial True)))))))"
    using b example_uuid_inj example_uuid_nonempty unfolding Let_def split_def by blast
  then have
     "filter (\<lambda>v. fst v = fst (private_sendMessage example_uuid 0 ''openURL'' (JObj [(''data'', JObj [])]) None
                 (mint 0 (run example_uuid [New \<lparr>timeout = Some 5000\<rparr>] (initial True)))))
        (settled (expire 1 (run example_uuid [Send 0 ''getLanguage'' JUndefined]
           (snd (private_sendMessage example_uuid 0 ''openURL'' (JObj [(''data'', JObj [])]) None
              (mint 0 (run example_uuid [New \<lparr>timeout = Some 5000\<rparr>] (initial True))))))))
      = filter (\<lambda>v. fst v = fst (private_sendMessage example_uuid 0 ''openURL'' (JObj [(''data'', JObj [])]) None
                 (mint 0 (run example_uuid [New \<lparr>timeout = Some 5000\<rparr>] (initial True)))))
        (settled (run example_uuid [Send 0 ''getLanguage'' JUndefined]
           (snd (private_sendMessage example_uuid 0 ''openURL'' (JObj [(''data'', JObj [])]) None
              (mint 0 (run example_uuid [New \<lparr>timeout = Some 5000\<rparr>] (initial True)))))))"
    by blast
  then have 3: "filter (\<lambda>v. fst v = 0)
       (settled (expire 1 (run example_uuid [Send 0 ''getLanguage'' JUndefined]
          (snd (private_sendMessage example_uuid 0 ''openURL'' (JObj [(''data'', JObj [])]) None
             (mint 0 (run example_uuid [New \<lparr>timeout = Some 5000\<rparr>] (initial True)))))))) = []"
    by (simp add: run_def constructor_def initial_def Let_def sendMessage_def commandMap_def
      messageId_or_fresh_def generateUniqueMessageId_def returned_def getLanguage_def
      private_sendMessage_def new_promise_def postMessage_def set_callbacks_def callbacks_of_def
      setTimeout_def mint_def example_uuid_def)
  show ?thesis using 1 2 3 by blast
qed

subsection \<open>The owner of a token\<close>

lemma tokens_okI:
  assumes "\<And>i k cb. (i, k, cb) \<in> entries s \<Longrightarrow> k \<in> g ` {..<minted s}"
    "\<And>i j k cb cb'. (i, k, cb) \<in> entries s \<Longrightarrow> (j, k, cb') \<in> entries s \<Longrightarrow> i = j"
  shows "tokens_ok g s"
  unfolding tokens_ok_def
  apply (intro conjI allI impI)
   apply (erule assms(1))
  apply (erule (1) assms(2))
  done

lemma tokens_ok_minted:
  "tokens_ok g s \<Longrightarrow> (i, k, cb) \<in> entries s \<Longrightarrow> k \<in> g ` {..<minted s}"
  unfolding tokens_ok_def by (elim conjE allE [of _ i] allE [of _ k] allE [of _ cb]) simp

lemma tokens_ok_owner:
  assumes "tokens_ok g s" "(i, k, cb) \<in> entries s" "(j, k, cb') \<in> entries s"
  shows "i = j"
proof -
  have "\<forall>i j k cb cb'. (i, k, cb) \<in> entries s \<longrightarrow> (j, k, cb') \<in> entries s \<longrightarrow> i = j"
    using assms(1) unfolding tokens_ok_def by (elim conjE)
  then have "(i, k, cb) \<in> entries s \<longrightarrow> (j, k, cb') \<in> entries s \<longrightarrow> i = j"
    by (elim allE)
  then show ?thesis using assms(2,3) by simp
qed

lemma tokens_ok_initial: "tokens_ok g (initial b)"
  by (rule tokens_okI) (simp_all add: entries_def initial_def)

lemma tokens_ok_shrink:
  assumes "tokens_ok g s" "entries t \<subseteq> entries s" "minted s \<le> minted t"
  shows "tokens_ok g t"
proof (rule tokens_okI)
  fix i k cb assume "(i, k, cb) \<in> entries t"
  then have "(i, k, cb) \<in> entries s" using assms(2) by (rule rev_subsetD)
  then have "k \<in> g ` {..<minted s}" by (rule tokens_ok_minted [OF assms(1)])
  then show "k \<in> g ` {..<minted t}" using assms(3) by auto
next
  fix i j k cb cb' assume "(i, k, cb) \<in> entries t" "(j, k, cb') \<in> entries t"
  then have "(i, k, cb) \<in> entries s" "(j, k, cb') \<in> entries s"
    using assms(2) by (auto intro: rev_subsetD)
  then show "i = j" by (rule tokens_ok_owner [OF assms(1)])
qed

lemma tokens_ok_grows:
  assumes "inj g" "tokens_ok g s" "grows g s t" "promises_ok t" "promises t \<le> Suc (promises s)"
  shows "tokens_ok g t"
proof (rule tokens_okI)
  fix i k cb assume "(i, k, cb) \<in> entries t"
  from grows_entry [OF assms(3) this]
  have "k \<in> g ` {..<minted s} \<or> k \<in> g ` {minted s..<minted t}"
    using tokens_ok_minted [OF assms(2), of i k cb] by blast
  then show "k \<in> g ` {..<minted t}" using grows_minted [OF assms(3)] by auto
next
  fix i j k cb cb' assume a: "(i, k, cb) \<in> entries t" and b: "(j, k, cb') \<in> entries t"
  have old: "k \<notin> g ` {minted s..<minted t}" if "(i', k, c) \<in> entries s" for i' c
  proof -
    from tokens_ok_minted [OF assms(2) that] obtain n where n: "k = g n" "n < minted s" by auto
    show ?thesis
    proof
      assume "k \<in> g ` {minted s..<minted t}"
      then obtain m where m: "k = g m" "minted s \<le> m" by auto
      from n(1) m(1) have "n = m" using assms(1) by (simp add: inj_eq)
      then show False using n(2) m(2) by simp
    qed
  qed
  from grows_entry [OF assms(3) a] grows_entry [OF assms(3) b]
  consider "(i, k, cb) \<in> entries s" "(j, k, cb') \<in> entries s"
    | "(i, k, cb) \<in> entries s" "k \<in> g ` {minted s..<minted t}"
    | "(j, k, cb') \<in> entries s" "k \<in> g ` {minted s..<minted t}"
    | "promises s \<le> resolve cb" "promises s \<le> resolve cb'"
    by blast
  then show "i = j"
  proof cases
    case 1
    then show ?thesis by (rule tokens_ok_owner [OF assms(2)])
  next
    case 2
    then show ?thesis using old by blast
  next
    case 3
    then show ?thesis using old by blast
  next
    case 4
    have "resolve cb < promises t" "resolve cb' < promises t"
      using promises_ok_created [OF assms(4)] a b by blast+
    then have "resolve cb = resolve cb'" using 4 assms(5) by simp
    from promises_ok_unique [OF assms(4) a b this] show ?thesis by simp
  qed
qed

lemma promises_private_sendMessage:
  "promises (snd (private_sendMessage g this cmd payload timeoutMs_arg s)) = Suc (promises s)"
  by (simp add: private_sendMessage_def new_promise_def generateUniqueMessageId_def Let_def
      split_def setTimeout_def cleanupCallback_parts)

lemma promises_sendMessage:
  "promises (snd (sendMessage g this cmd payload s)) = Suc (promises s)"
proof -
  have "sends g this cmd s (sendMessage g this cmd payload s)" by (rule sendMessage_sends)
  then obtain n where
    "(\<exists>v. sendMessage g this cmd payload s = Promise_resolve v (mint n s))
     \<or> (\<exists>p. sendMessage g this cmd payload s = private_sendMessage g this cmd p None (mint n s))"
    unfolding sends_def by blast
  then show ?thesis
    by (auto simp: promises_private_sendMessage Promise_resolve_def new_promise_def Let_def)
qed

lemma promises_messageHandler: "promises (messageHandler this result s) = promises s"
  by (simp add: messageHandler_def Let_def cleanupCallback_parts split: option.splits)

lemma promises_handleTimeout: "promises (handleTimeout this k cmd s) = promises s"
  by (simp add: handleTimeout_def Let_def cleanupCallback_parts split: option.splits)

lemma promises_deliver: "promises (deliver result s) = promises s"
proof -
  have "promises (foldl (\<lambda>s this. messageHandler this result s) s bound) = promises s" for bound
    by (induction bound arbitrary: s) (simp_all add: promises_messageHandler)
  then show ?thesis by (simp add: deliver_def)
qed

lemma promises_expire: "promises (expire handle s) = promises s"
  by (simp add: expire_def promises_handleTimeout split: option.splits)

lemma promises_step: "promises (step g s e) \<le> Suc (promises s)"
  by (cases e)
    (simp_all add: constructor_parts promises_sendMessage destroy_parts promises_deliver
      promises_expire)

lemma tokens_ok_step:
  assumes "inj g" "\<forall>n. g n \<noteq> []" "inv s" "tokens_ok g s"
  shows "tokens_ok g (step g s e)"
  using assms(1,4) grows_step [OF assms(3)] inv_parts(2) [OF inv_step [OF assms(3,2)]] promises_step
  by (rule tokens_ok_grows)

lemma tokens_ok_run:
  assumes "inj g" "\<forall>n. g n \<noteq> []"
  shows "inv s \<Longrightarrow> tokens_ok g s \<Longrightarrow> tokens_ok g (run g evs s)"
proof (induction evs arbitrary: s)
  case Nil
  then show ?case by (simp add: run_def)
next
  case (Cons e evs)
  have "inv (step g s e)" using Cons.prems(1) assms(2) by (rule inv_step)
  moreover have "tokens_ok g (step g s e)" using assms Cons.prems by (rule tokens_ok_step)
  ultimately have "tokens_ok g (run g evs (step g s e))" by (rule Cons.IH)
  then show ?case by (simp add: run_def)
qed

subsection \<open>The log of the settlements grows\<close>

lemma settled_private_sendMessage:
  "\<exists>ws. settled (snd (private_sendMessage g this cmd payload timeoutMs_arg s)) = settled s @ ws"
  by (simp add: private_sendMessage_def new_promise_def generateUniqueMessageId_def Let_def
      split_def setTimeout_def cleanupCallback_parts call_resolve_def postMessage_def
      set_callbacks_def)

lemma settled_sendMessage:
  "\<exists>ws. settled (snd (sendMessage g this cmd payload s)) = settled s @ ws"
proof -
  have "sends g this cmd s (sendMessage g this cmd payload s)" by (rule sendMessage_sends)
  then obtain n where
    "(\<exists>v. sendMessage g this cmd payload s = Promise_resolve v (mint n s))
     \<or> (\<exists>p. sendMessage g this cmd payload s = private_sendMessage g this cmd p None (mint n s))"
    unfolding sends_def by blast
  then show ?thesis
  proof (elim disjE exE)
    fix v assume "sendMessage g this cmd payload s = Promise_resolve v (mint n s)"
    then show ?thesis by (simp add: Promise_resolve_def new_promise_def Let_def call_resolve_def mint_def)
  next
    fix p assume "sendMessage g this cmd payload s = private_sendMessage g this cmd p None (mint n s)"
    then show ?thesis using settled_private_sendMessage [of g this cmd p None "mint n s"] by simp
  qed
qed

lemma settled_deliver: "\<exists>ws. settled (deliver result s) = settled s @ ws"
proof -
  have "\<exists>ws. settled (foldl (\<lambda>s this. messageHandler this result s) s bound) = settled s @ ws" for bound
  proof (induction bound arbitrary: s)
    case Nil
    then show ?case by simp
  next
    case (Cons this bound)
    obtain ws where 1: "settled (messageHandler this result s) = settled s @ ws"
      using messageHandler_settled [of this result s] by auto
    obtain ws' where
      "settled (foldl (\<lambda>s this. messageHandler this result s) (messageHandler this result s) bound) =
         settled (messageHandler this result s) @ ws'"
      using Cons.IH by blast
    then show ?case using 1 by simp
  qed
  then show ?thesis by (simp add: deliver_def)
qed

lemma settled_expire: "\<exists>ws. settled (expire handle s) = settled s @ ws"
  by (simp add: expire_def handleTimeout_def Let_def cleanupCallback_parts call_resolve_def
      split: option.splits)

lemma settled_step: "\<exists>ws. settled (step g s e) = settled s @ ws"
  by (cases e)
    (simp_all add: constructor_parts settled_sendMessage destroy_parts settled_deliver
      settled_expire)

lemma settled_run: "\<exists>ws. settled (run g evs s) = settled s @ ws"
proof (induction evs arbitrary: s)
  case Nil
  then show ?case by (simp add: run_def)
next
  case (Cons e evs)
  obtain ws where 1: "settled (step g s e) = settled s @ ws" using settled_step by blast
  obtain ws' where "settled (run g evs (step g s e)) = settled (step g s e) @ ws'"
    using Cons.IH by blast
  then show ?case using 1 by (simp add: run_def)
qed

subsection \<open>Settled once and for all\<close>

lemma filter_key:
  "distinct (map fst xs) \<Longrightarrow> map_of xs k = Some v \<Longrightarrow> filter (\<lambda>x. fst x = k) xs = [(k, v)]"
proof (induction xs)
  case Nil
  then show ?case by simp
next
  case (Cons x xs)
  show ?case
  proof (cases "fst x = k")
    case True
    then have "k \<notin> fst ` set xs" using Cons.prems(1) by auto
    then have "filter (\<lambda>x. fst x = k) xs = []" by (auto simp: filter_empty_conv)
    moreover have "x = (k, v)" using True Cons.prems(2) by (cases x) simp
    ultimately show ?thesis by simp
  next
    case False
    then have "map_of xs k = Some v" using Cons.prems(2) by (cases x) (simp split: if_splits)
    then show ?thesis using Cons.IH Cons.prems(1) False by simp
  qed
qed

lemma filter_resolved:
  assumes "promises_ok s" "this < length (instances s)" "distinct (map fst (callbacks_of s this))"
    "map_of (callbacks_of s this) k = Some cb"
  shows "filter (\<lambda>p. fst p = resolve cb)
           (map (\<lambda>(k, c). (resolve c, destroyed_response k)) (callbacks_of s this))
         = [(resolve cb, destroyed_response k)]"
proof -
  have en: "(this, k, cb) \<in> entries s" using assms(2,4) by (simp add: entries_def)
  have "(resolve (snd x) = resolve cb) = (fst x = k)" if "x \<in> set (callbacks_of s this)" for x
  proof -
    obtain k' c' where x: "x = (k', c')" by (cases x)
    have m: "map_of (callbacks_of s this) k' = Some c'"
      using assms(3) that unfolding x by (rule map_of_is_SomeI)
    then have e: "(this, k', c') \<in> entries s" using assms(2) by (simp add: entries_def)
    show ?thesis
    proof
      assume "resolve (snd x) = resolve cb"
      then have "resolve c' = resolve cb" by (simp add: x)
      from promises_ok_unique [OF assms(1) e en this] show "fst x = k" by (simp add: x)
    next
      assume "fst x = k"
      then show "resolve (snd x) = resolve cb" using m assms(4) by (simp add: x)
    qed
  qed
  then have "filter (\<lambda>x. resolve (snd x) = resolve cb) (callbacks_of s this) =
             filter (\<lambda>x. fst x = k) (callbacks_of s this)"
    by (intro filter_cong refl)
  also have "\<dots> = [(k, cb)]" using assms(3,4) by (rule filter_key)
  finally show ?thesis by (simp add: filter_map comp_def split_def)
qed

lemma foldl_fixed: "(\<And>x. x \<in> set xs \<Longrightarrow> f t x = t) \<Longrightarrow> foldl f t xs = t"
  by (induction xs) simp_all

lemma deliver_absent:
  assumes "refs_ok t" "property result ''messageId'' = JStr k"
    "\<And>j. j < length (instances t) \<Longrightarrow> map_of (callbacks_of t j) k = None"
  shows "deliver result t = t"
  unfolding deliver_def
proof (rule foldl_fixed)
  fix j assume "j \<in> set (listeners t)"
  then have "j < length (instances t)" by (rule refs_ok_listener [OF assms(1)])
  then have "map_of (callbacks_of t j) k = None" by (rule assms(3))
  with assms(2) show "messageHandler j result t = t" by (rule messageHandler_absent)
qed

lemma settled_for_good:
  assumes g: "\<forall>n. g n \<noteq> []"
    and s: "inv s" "(this, k, cb) \<in> entries s"
    and s': "inv s'" "settled s' = settled s @ vs"
      "filter (\<lambda>p. fst p = resolve cb) vs = [(resolve cb, v)]"
  shows "filter (\<lambda>p. fst p = resolve cb) (settled (run g evs' s')) = [(resolve cb, v)]"
proof -
  let ?t = "run g evs' s'"
  have it: "inv ?t" by (rule inv_run [OF g s'(1)])
  obtain ws where ws: "settled ?t = settled s' @ ws" using settled_run by blast
  have d: "distinct (map fst (settled s @ vs @ ws))"
    using promises_ok_distinct [OF inv_parts(2) [OF it]] by (simp add: ws s'(2))
  have "(resolve cb, v) \<in> set (filter (\<lambda>p. fst p = resolve cb) vs)" by (simp add: s'(3))
  then have m: "resolve cb \<in> fst ` set vs" by force
  have "resolve cb \<notin> fst ` set (settled s)"
    using promises_ok_unsettled [OF inv_parts(2) [OF s(1)] s(2)] .
  then have 1: "filter (\<lambda>p. fst p = resolve cb) (settled s) = []"
    by (force simp: filter_empty_conv)
  have "resolve cb \<notin> fst ` set ws" using d m by auto
  then have 2: "filter (\<lambda>p. fst p = resolve cb) ws = []"
    by (force simp: filter_empty_conv)
  show ?thesis by (simp add: ws s'(2,3) 1 2)
qed

lemma absent_for_good:
  assumes g: "inj g" "\<forall>n. g n \<noteq> []"
    and s: "tokens_ok g s" "(this, k, cb) \<in> entries s"
    and s': "inv s'" "entries s' \<subseteq> {e \<in> entries s. \<not> (fst e = this \<and> fst (snd e) = k)}"
      "minted s' = minted s"
    and j: "j < length (instances (run g evs' s'))"
  shows "map_of (callbacks_of (run g evs' s') j) k = None"
proof (rule ccontr)
  let ?t = "run g evs' s'"
  assume "map_of (callbacks_of ?t j) k \<noteq> None"
  then obtain c where "map_of (callbacks_of ?t j) k = Some c" by auto
  then have en: "(j, k, c) \<in> entries ?t" using j by (simp add: entries_def)
  have gr: "grows g s' ?t" by (rule grows_run [OF g(2) s'(1)])
  from tokens_ok_minted [OF s(1,2)] obtain n where n: "k = g n" "n < minted s" by auto
  from grows_entry [OF gr en] show False
  proof
    assume "(j, k, c) \<in> entries s'"
    then have "(j, k, c) \<in> {e \<in> entries s. \<not> (fst e = this \<and> fst (snd e) = k)}"
      using s'(2) by (rule rev_subsetD)
    then have "(j, k, c) \<in> entries s" "j \<noteq> this" by simp_all
    then show False using tokens_ok_owner [OF s(1,2), of j c] by simp
  next
    assume "promises s' \<le> resolve c \<and> k \<in> g ` {minted s'..<minted ?t}"
    then obtain m where m: "k = g m" "minted s \<le> m" by (auto simp: s'(3))
    from n(1) m(1) have "n = m" using g(1) by (simp add: inj_eq)
    then show False using n(2) m(2) by simp
  qed
qed

lemma minted_settle: "minted (settle this k cb v s) = minted s"
  by (simp add: settle_def)

lemma settle_once:
  assumes g: "\<forall>n. g n \<noteq> []"
    and s: "inv s" "this < length (instances s)" "map_of (callbacks_of s this) k = Some cb"
  shows "map_of (callbacks_of (settle this k cb v s) this) k = None"
    and "timeoutId cb = Some h \<Longrightarrow> map_of (timers (settle this k cb v s)) h = None"
    and "filter (\<lambda>p. fst p = resolve cb) (settled (run g evs' (settle this k cb v s))) = [(resolve cb, v)]"
proof -
  let ?s' = "settle this k cb v s"
  have en: "(this, k, cb) \<in> entries s" using s(2,3) by (simp add: entries_def)
  note ok = registry_ok_entry [OF inv_parts(1) [OF s(1)] en]
  show "map_of (callbacks_of ?s' this) k = None"
    using s(2) by (simp add: settle_parts(7) delete_conv')
  show "map_of (timers ?s') h = None" if "timeoutId cb = Some h"
    using that ok by (intro settle_parts(6)) auto
  have i': "inv ?s'" using s by (rule inv_settle)
  have f: "filter (\<lambda>p. fst p = resolve cb) [(resolve cb, v)] = [(resolve cb, v)]" by simp
  show "filter (\<lambda>p. fst p = resolve cb) (settled (run g evs' ?s')) = [(resolve cb, v)]"
    using g s(1) en i' settle_parts(1) f by (rule settled_for_good)
qed

lemma settle_absent:
  assumes g: "inj g" "\<forall>n. g n \<noteq> []"
    and s: "inv s" "tokens_ok g s" "this < length (instances s)"
      "map_of (callbacks_of s this) k = Some cb"
    and j: "j < length (instances (run g evs' (settle this k cb v s)))"
  shows "map_of (callbacks_of (run g evs' (settle this k cb v s)) j) k = None"
proof -
  let ?s' = "settle this k cb v s"
  have en: "(this, k, cb) \<in> entries s" using s(3,4) by (simp add: entries_def)
  have i': "inv ?s'" using s(1,3,4) by (rule inv_settle)
  have e': "entries ?s' \<subseteq> {e \<in> entries s. \<not> (fst e = this \<and> fst (snd e) = k)}"
    by (auto simp: settle_entries [OF s(3)])
  show ?thesis using g s(2) en i' e' minted_settle j by (rule absent_for_good)
qed

lemma destroy_once:
  assumes g: "\<forall>n. g n \<noteq> []"
    and s: "inv s" "this < length (instances s)" "map_of (callbacks_of s this) k = Some cb"
  shows "map_of (callbacks_of (destroy this s) this) k = None"
    and "timeoutId cb = Some h \<Longrightarrow> map_of (timers (destroy this s)) h = None"
    and "filter (\<lambda>p. fst p = resolve cb) (settled (run g evs' (destroy this s)))
           = [(resolve cb, destroyed_response k)]"
proof -
  let ?s' = "destroy this s"
  have en: "(this, k, cb) \<in> entries s" using s(2,3) by (simp add: entries_def)
  note ok = registry_ok_entry [OF inv_parts(1) [OF s(1)] en]
  have d: "distinct (map fst (callbacks_of s this))"
    by (rule registry_ok_distinct [OF inv_parts(1) [OF s(1)] s(2)])
  show "map_of (callbacks_of ?s' this) k = None"
    using s(2) by (simp add: destroy_parts(4))
  show "map_of (timers ?s') h = None" if h: "timeoutId cb = Some h"
  proof -
    have "h \<noteq> 0" using ok h by auto
    moreover have "k \<in> set (map fst (callbacks_of s this))"
      using s(3) by (auto dest: map_of_SomeD intro: rev_image_eqI)
    ultimately have "h \<in> set (cleared (callbacks_of s this) (map fst (callbacks_of s this)))"
      using s(3) h by (intro cleared_entry) auto
    then show ?thesis by (auto simp: destroy_parts(2) map_of_eq_None_iff)
  qed
  have i': "inv ?s'" using s(1,2) by (rule inv_destroy)
  note f = filter_resolved [OF inv_parts(2) [OF s(1)] s(2) d s(3)]
  show "filter (\<lambda>p. fst p = resolve cb) (settled (run g evs' ?s')) = [(resolve cb, destroyed_response k)]"
    using g s(1) en i' destroy_settled [OF d] f by (rule settled_for_good)
qed

lemma destroy_absent:
  assumes g: "inj g" "\<forall>n. g n \<noteq> []"
    and s: "inv s" "tokens_ok g s" "this < length (instances s)"
      "map_of (callbacks_of s this) k = Some cb"
    and j: "j < length (instances (run g evs' (destroy this s)))"
  shows "map_of (callbacks_of (run g evs' (destroy this s)) j) k = None"
proof -
  let ?s' = "destroy this s"
  have en: "(this, k, cb) \<in> entries s" using s(3,4) by (simp add: entries_def)
  have i': "inv ?s'" using s(1,3) by (rule inv_destroy)
  have e': "entries ?s' \<subseteq> {e \<in> entries s. \<not> (fst e = this \<and> fst (snd e) = k)}"
    by (auto simp: destroy_entries [OF s(3)])
  show ?thesis using g s(2) en i' e' destroy_minted j by (rule absent_for_good)
qed

lemma deliver_single: "listeners s = [this] \<Longrightarrow> deliver result s = messageHandler this result s"
  by (simp add: deliver_def)

lemma expire_own_timer:
  assumes "map_of (callbacks_of s this) k = Some cb" "k \<noteq> []" "timeoutId cb = Some h" "h \<noteq> 0"
    and "map_of (timers s) h = Some tm" "timer_this tm = this" "timer_messageId tm = k"
  shows "expire h s = handleTimeout this k (timer_cmd tm) s"
  using assms
  by (simp add: expire_def handleTimeout_def cleanupCallback_def Let_def clear_if_set_def
      clearTimeout_def call_resolve_def set_callbacks_def callbacks_of_def delete_as_filter)

lemma absent_everywhere:
  assumes "refs_ok t" "\<And>j. j < length (instances t) \<Longrightarrow> map_of (callbacks_of t j) k = None"
  shows "(\<forall>j < length (instances t).
            map_of (callbacks_of t j) k = None
            \<and> (\<forall>late. property late ''messageId'' = JStr k \<longrightarrow> messageHandler j late t = t)
            \<and> (\<forall>cmd'. handleTimeout j k cmd' t = t))
         \<and> (\<forall>late. property late ''messageId'' = JStr k \<longrightarrow> deliver late t = t)"
proof (intro conjI allI impI)
  fix j assume "j < length (instances t)"
  then show "map_of (callbacks_of t j) k = None" by (rule assms(2))
next
  fix j late assume "j < length (instances t)" "property late ''messageId'' = JStr k"
  then show "messageHandler j late t = t" using assms(2) by (intro messageHandler_absent)
next
  fix j cmd' assume "j < length (instances t)"
  then show "handleTimeout j k cmd' t = t" using assms(2) by (intro handleTimeout_absent)
next
  fix late assume "property late ''messageId'' = JStr k"
  with assms(1) show "deliver late t = t" using assms(2) by (rule deliver_absent)
qed

text \<open>
  C1: take any pending call, that is, any entry \<open>callback\<close> under a token \<open>messageId\<close> in the
  registry of a client \<open>this\<close> after any run (the tokens not being empty, as UUIDs are), and
  settle it by one of the three paths: the handler of the client gets a reply that carries
  the token, the timeout of the call fires, or the client is destroyed. Its \<open>resolve\<close>
  function was never called before. After the settlement the token is absent from the
  registry of the client, the timer of the call, if one was armed, is no longer armed, and
  a late reply that carries the token and a late timeout for the token leave the state as
  it is. In every state that any later run reaches, \<open>resolve\<close> has been called exactly
  once, with the value of that path. When the tokens are distinct, as UUIDs are, the token
  is in no registry of any such later state, where a late reply that carries the token,
  whether given to the handler of any client or delivered by the window, and a late
  timeout for the token change nothing at all. The three paths are what the events of a
  run do: the window delivers the reply to the listener, which is the handler of the
  client when the client installed it; the timer whose handle the call stores expires; the
  client is destroyed.
\<close>

theorem settlement_exactly_once:
  assumes "\<forall>n. g n \<noteq> []"
    and "s = run g evs (initial b)"
    and "this < length (instances s)" "map_of (callbacks_of s this) messageId = Some callback"
    and "(truthy result \<and> typeof result = ''object'' \<and> property result ''messageId'' = JStr messageId
            \<and> s' = messageHandler this result s \<and> v = result)
         \<or> (s' = handleTimeout this messageId cmd s
            \<and> v = JObj [(''code'', JNum 30011), (''messageId'', JStr messageId)])
         \<or> (s' = destroy this s \<and> v = destroyed_response messageId)"
  shows "resolve callback \<notin> fst ` set (settled s)
       \<and> map_of (callbacks_of s' this) messageId = None
       \<and> (\<forall>h. timeoutId callback = Some h \<longrightarrow> map_of (timers s') h = None)
       \<and> (\<forall>late. property late ''messageId'' = JStr messageId \<longrightarrow> messageHandler this late s' = s')
       \<and> (\<forall>cmd'. handleTimeout this messageId cmd' s' = s')
       \<and> (\<forall>evs'.
            filter (\<lambda>p. fst p = resolve callback) (settled (run g evs' s')) = [(resolve callback, v)])
       \<and> (inj g \<longrightarrow>
            (\<forall>evs'.
               (\<forall>j < length (instances (run g evs' s')).
                  map_of (callbacks_of (run g evs' s') j) messageId = None
                  \<and> (\<forall>late. property late ''messageId'' = JStr messageId \<longrightarrow>
                        messageHandler j late (run g evs' s') = run g evs' s')
                  \<and> (\<forall>cmd'. handleTimeout j messageId cmd' (run g evs' s') = run g evs' s'))
               \<and> (\<forall>late. property late ''messageId'' = JStr messageId \<longrightarrow>
                     deliver late (run g evs' s') = run g evs' s')))
       \<and> (listeners s = [this] \<longrightarrow> step g s (Message result) = messageHandler this result s)
       \<and> (\<forall>h tm. timeoutId callback = Some h \<and> map_of (timers s) h = Some tm
              \<and> timer_this tm = this \<and> timer_messageId tm = messageId \<longrightarrow>
              step g s (Expire h) = handleTimeout this messageId (timer_cmd tm) s)
       \<and> step g s (Destroy this) = destroy this s"
proof -
  have i: "inv s" unfolding assms(2) by (rule inv_run [OF assms(1) inv_initial])
  have en: "(this, messageId, callback) \<in> entries s" using assms(3,4) by (simp add: entries_def)
  have ne: "messageId \<noteq> []" using registry_ok_entry [OF inv_parts(1) [OF i] en] by simp
  have 1: "resolve callback \<notin> fst ` set (settled s)"
    by (rule promises_ok_unsettled [OF inv_parts(2) [OF i] en])
  have core: "inv s' \<and> map_of (callbacks_of s' this) messageId = None
      \<and> (\<forall>h. timeoutId callback = Some h \<longrightarrow> map_of (timers s') h = None)
      \<and> (\<forall>evs'. filter (\<lambda>p. fst p = resolve callback) (settled (run g evs' s')) = [(resolve callback, v)])
      \<and> (inj g \<longrightarrow> (\<forall>evs' j. j < length (instances (run g evs' s')) \<longrightarrow>
            map_of (callbacks_of (run g evs' s') j) messageId = None))"
    using assms(5)
  proof (elim disjE conjE)
    assume r: "truthy result" "typeof result = ''object''" "property result ''messageId'' = JStr messageId"
      and "s' = messageHandler this result s" "v = result"
    then have eq: "s' = settle this messageId callback v s"
      using assms(4) ne by (simp add: messageHandler_found)
    have "inv (settle this messageId callback v s)" using i assms(3,4) by (rule inv_settle)
    moreover have "map_of (callbacks_of (run g evs' (settle this messageId callback v s)) j) messageId = None"
      if "inj g" "j < length (instances (run g evs' (settle this messageId callback v s)))" for evs' j
      using that(1) assms(1) i tokens_ok_run [OF that(1) assms(1) inv_initial tokens_ok_initial, of evs b]
        assms(3,4) that(2) unfolding assms(2) [symmetric] by (rule settle_absent)
    ultimately show ?thesis
      unfolding eq using settle_once [OF assms(1) i assms(3,4), where v = v] by blast
  next
    assume "s' = handleTimeout this messageId cmd s"
      "v = JObj [(''code'', JNum 30011), (''messageId'', JStr messageId)]"
    then have eq: "s' = settle this messageId callback v s"
      using assms(4) ne by (simp add: handleTimeout_found)
    have "inv (settle this messageId callback v s)" using i assms(3,4) by (rule inv_settle)
    moreover have "map_of (callbacks_of (run g evs' (settle this messageId callback v s)) j) messageId = None"
      if "inj g" "j < length (instances (run g evs' (settle this messageId callback v s)))" for evs' j
      using that(1) assms(1) i tokens_ok_run [OF that(1) assms(1) inv_initial tokens_ok_initial, of evs b]
        assms(3,4) that(2) unfolding assms(2) [symmetric] by (rule settle_absent)
    ultimately show ?thesis
      unfolding eq using settle_once [OF assms(1) i assms(3,4), where v = v] by blast
  next
    assume eq: "s' = destroy this s" "v = destroyed_response messageId"
    have "inv (destroy this s)" using i assms(3) by (rule inv_destroy)
    moreover have "map_of (callbacks_of (run g evs' (destroy this s)) j) messageId = None"
      if "inj g" "j < length (instances (run g evs' (destroy this s)))" for evs' j
      using that(1) assms(1) i tokens_ok_run [OF that(1) assms(1) inv_initial tokens_ok_initial, of evs b]
        assms(3,4) that(2) unfolding assms(2) [symmetric] by (rule destroy_absent)
    ultimately show ?thesis
      unfolding eq using destroy_once [OF assms(1) i assms(3,4)] by blast
  qed
  have now: "(\<forall>late. property late ''messageId'' = JStr messageId \<longrightarrow> messageHandler this late s' = s')
      \<and> (\<forall>cmd'. handleTimeout this messageId cmd' s' = s')"
    using core by (simp add: messageHandler_absent handleTimeout_absent)
  have later: "(\<forall>j < length (instances (run g evs' s')).
            map_of (callbacks_of (run g evs' s') j) messageId = None
            \<and> (\<forall>late. property late ''messageId'' = JStr messageId \<longrightarrow>
                  messageHandler j late (run g evs' s') = run g evs' s')
            \<and> (\<forall>cmd'. handleTimeout j messageId cmd' (run g evs' s') = run g evs' s'))
         \<and> (\<forall>late. property late ''messageId'' = JStr messageId \<longrightarrow>
               deliver late (run g evs' s') = run g evs' s')" if "inj g" for evs'
  proof (rule absent_everywhere)
    have "inv (run g evs' s')" using core by (intro inv_run [OF assms(1)]) simp
    then show "refs_ok (run g evs' s')" by (rule inv_parts(3))
    show "map_of (callbacks_of (run g evs' s') j) messageId = None"
      if "j < length (instances (run g evs' s'))" for j
      using core \<open>inj g\<close> that by blast
  qed
  have m: "listeners s = [this] \<longrightarrow> step g s (Message result) = messageHandler this result s"
    by (simp add: deliver_single)
  have h0: "timeoutId callback \<noteq> Some 0" using registry_ok_entry [OF inv_parts(1) [OF i] en] by simp
  have e: "step g s (Expire h) = handleTimeout this messageId (timer_cmd tm) s"
    if "timeoutId callback = Some h \<and> map_of (timers s) h = Some tm
        \<and> timer_this tm = this \<and> timer_messageId tm = messageId" for h tm
  proof -
    have "h \<noteq> 0" using that h0 by auto
    then have "expire h s = handleTimeout this messageId (timer_cmd tm) s"
      using assms(4) ne that by (intro expire_own_timer [where cb = callback]) simp_all
    then show ?thesis by simp
  qed
  have d: "step g s (Destroy this) = destroy this s" using assms(3) by simp
  have c2: "map_of (callbacks_of s' this) messageId = None" using core by simp
  have c3: "\<forall>h. timeoutId callback = Some h \<longrightarrow> map_of (timers s') h = None" using core by simp
  have c4: "\<forall>evs'. filter (\<lambda>p. fst p = resolve callback) (settled (run g evs' s')) = [(resolve callback, v)]"
    using core by simp
  show ?thesis
    apply (intro conjI)
            apply (rule 1)
           apply (rule c2)
          apply (rule c3)
         apply (rule now [THEN conjunct1])
        apply (rule now [THEN conjunct2])
       apply (rule c4)
      apply (intro impI allI)
      apply (erule later)
     apply (rule m)
    using e apply blast
    apply (rule d)
    done
qed

theorem settlement_exactly_once_witness:
  "map_of (callbacks_of (run example_uuid [New \<lparr>timeout = None\<rparr>, Send 0 ''getLanguage'' JUndefined]
       (initial True)) 0) ''xx'' = Some \<lparr>resolve = 0, timeoutId = Some 1\<rparr>
   \<and> 0 \<notin> fst ` set (settled (run example_uuid [New \<lparr>timeout = None\<rparr>, Send 0 ''getLanguage'' JUndefined]
       (initial True)))
   \<and> map_of (callbacks_of
        (messageHandler 0 (JObj [(''code'', JNum 200), (''messageId'', JStr ''xx'')])
          (run example_uuid [New \<lparr>timeout = None\<rparr>, Send 0 ''getLanguage'' JUndefined] (initial True))) 0)
        ''xx'' = None
   \<and> map_of (timers
        (messageHandler 0 (JObj [(''code'', JNum 200), (''messageId'', JStr ''xx'')])
          (run example_uuid [New \<lparr>timeout = None\<rparr>, Send 0 ''getLanguage'' JUndefined] (initial True))))
        1 = None
   \<and> filter (\<lambda>p. fst p = 0)
        (settled (run example_uuid
           [Message (JObj [(''code'', JNum 200), (''messageId'', JStr ''xx'')]), Expire 1, Destroy 0]
           (messageHandler 0 (JObj [(''code'', JNum 200), (''messageId'', JStr ''xx'')])
             (run example_uuid [New \<lparr>timeout = None\<rparr>, Send 0 ''getLanguage'' JUndefined] (initial True)))))
      = [(0, JObj [(''code'', JNum 200), (''messageId'', JStr ''xx'')])]
   \<and> deliver (JObj [(''code'', JNum 200), (''messageId'', JStr ''xx'')])
        (messageHandler 0 (JObj [(''code'', JNum 200), (''messageId'', JStr ''xx'')])
          (run example_uuid [New \<lparr>timeout = None\<rparr>, Send 0 ''getLanguage'' JUndefined] (initial True)))
      = messageHandler 0 (JObj [(''code'', JNum 200), (''messageId'', JStr ''xx'')])
          (run example_uuid [New \<lparr>timeout = None\<rparr>, Send 0 ''getLanguage'' JUndefined] (initial True))"
proof -
  let ?s = "run example_uuid [New \<lparr>timeout = None\<rparr>, Send 0 ''getLanguage'' JUndefined] (initial True)"
  let ?reply = "JObj [(''code'', JNum 200), (''messageId'', JStr ''xx'')]"
  let ?s' = "messageHandler 0 ?reply ?s"
  have s: "instances ?s = [\<lparr>defaultTimeout = 30000,
                            messageCallbacks = [(''xx'', \<lparr>resolve = 0, timeoutId = Some 1\<rparr>)]\<rparr>]"
    by (simp add: run_def constructor_def initial_def Let_def sendMessage_def commandMap_def
        messageId_or_fresh_def generateUniqueMessageId_def returned_def getLanguage_def
        private_sendMessage_def new_promise_def postMessage_def set_callbacks_def callbacks_of_def
        setTimeout_def assign_def example_uuid_def)
  have lt: "0 < length (instances ?s)" unfolding s by simp
  have lookup: "map_of (callbacks_of ?s 0) ''xx'' = Some \<lparr>resolve = 0, timeoutId = Some 1\<rparr>"
    unfolding callbacks_of_def s by simp
  have path: "(truthy ?reply \<and> typeof ?reply = ''object'' \<and> property ?reply ''messageId'' = JStr ''xx''
            \<and> ?s' = messageHandler 0 ?reply ?s \<and> ?reply = ?reply)
         \<or> (?s' = handleTimeout 0 ''xx'' ''getLanguage'' ?s
            \<and> ?reply = JObj [(''code'', JNum 30011), (''messageId'', JStr ''xx'')])
         \<or> (?s' = destroy 0 ?s \<and> ?reply = destroyed_response ''xx'')"
    by simp
  note T = settlement_exactly_once [OF example_uuid_nonempty refl lt lookup path]
  have r: "run example_uuid [] ?s' = ?s'" by (simp add: run_def)
  have 1: "0 \<notin> fst ` set (settled ?s)" using T by simp
  have 2: "map_of (callbacks_of ?s' 0) ''xx'' = None" using T by simp
  have 3: "map_of (timers ?s') 1 = None" using T by simp
  have 4: "filter (\<lambda>p. fst p = 0)
        (settled (run example_uuid [Message ?reply, Expire 1, Destroy 0] ?s')) = [(0, ?reply)]"
    using T by simp
  have "property ?reply ''messageId'' = JStr ''xx'' \<longrightarrow>
        deliver ?reply (run example_uuid [] ?s') = run example_uuid [] ?s'"
    using T example_uuid_inj by blast
  then have 5: "deliver ?reply ?s' = ?s'" unfolding r by simp
  show ?thesis using lookup 1 2 3 4 5 by blast
qed

end
